theory Spec2Isabelle
  imports Main "HOL-Library.AList" "HOL-Library.Multiset"
begin

section \<open>The data of lib/mprune.js\<close>

text \<open>
  The numbers that the policy uses as property keys: what a getter of a \<open>Date\<close> returns
  is an integer, or \<open>NaN\<close> when the date is invalid.
\<close>

datatype 'a jsnumber = NaN | Number 'a

text \<open>
  A \<open>Date\<close> is read by the policy through three getters only. It is either an invalid
  date (\<open>new Date(NaN)\<close>, which is not \<open>null\<close>), whose getters all return \<open>NaN\<close>, or a
  date with a year, a month counted from 0 and a day of the month.
\<close>

datatype date = InvalidDate | UTCDate int nat nat

fun getUTCFullYear :: "date \<Rightarrow> int jsnumber" where
  "getUTCFullYear InvalidDate = NaN"
| "getUTCFullYear (UTCDate y m d) = Number y"

fun getUTCMonth :: "date \<Rightarrow> nat jsnumber" where
  "getUTCMonth InvalidDate = NaN"
| "getUTCMonth (UTCDate y m d) = Number m"

fun getUTCDate :: "date \<Rightarrow> nat jsnumber" where
  "getUTCDate InvalidDate = NaN"
| "getUTCDate (UTCDate y m d) = Number d"

text \<open>
  A valid date: not the invalid date, and a month and a day in the ranges that ECMAScript
  guarantees of the getters of a valid \<open>Date\<close>.
\<close>

fun validDate :: "date \<Rightarrow> bool" where
  "validDate InvalidDate = False"
| "validDate (UTCDate y m d) = (m < 12 \<and> 1 \<le> d \<and> d \<le> 31)"

text \<open>\<open>v + 1\<close> on such a number: \<open>NaN + 1\<close> is \<open>NaN\<close>.\<close>

fun plus1 :: "nat jsnumber \<Rightarrow> nat jsnumber" where
  "plus1 NaN = NaN"
| "plus1 (Number n) = Number (n + 1)"

text \<open>
  A \<open>RegExp\<close> object. \<open>matcher r s i\<close> is the attempt of the pattern to match the string
  \<open>s\<close> at index \<open>i\<close>: the index where the match ends, or \<open>None\<close>. \<open>global\<close> and \<open>sticky\<close>
  are the flags \<open>g\<close> and \<open>y\<close>, and \<open>lastIndex\<close> is the property that \<open>test\<close> reads and
  writes when one of the two flags is set.
\<close>

record regexp =
  matcher :: "string \<Rightarrow> nat \<Rightarrow> nat option"
  global :: bool
  sticky :: bool
  lastIndex :: nat

text \<open>
  The search of \<open>RegExpBuiltinExec\<close> from index \<open>i\<close>: the pattern is tried at \<open>i\<close>, and,
  unless it is sticky, at the following indices up to the length of the string.
\<close>

function search :: "(string \<Rightarrow> nat \<Rightarrow> nat option) \<Rightarrow> bool \<Rightarrow> string \<Rightarrow> nat \<Rightarrow> nat option" where
  "search m y s i =
     (if i > length s then None
      else (case m s i of
              Some e \<Rightarrow> Some e
            | None \<Rightarrow> if y then None else search m y s (Suc i)))"
  by pat_completeness auto
termination
  by (relation "measure (\<lambda>(m, y, s, i). Suc (length s) - i)") auto

declare search.simps [simp del]

text \<open>
  \<open>RegExp.prototype.test\<close> (ECMAScript 2017): the object after the call and the result.
  With the flag \<open>g\<close> or \<open>y\<close> the search starts at \<open>lastIndex\<close>, which becomes the end of
  the match, or 0 when there is none; without them it starts at 0 and writes nothing.
\<close>

definition test :: "regexp \<Rightarrow> string \<Rightarrow> regexp \<times> bool" where
  "test r s =
     (if global r \<or> sticky r then
        (case search (matcher r) (sticky r) s (lastIndex r) of
           None \<Rightarrow> (r\<lparr>lastIndex := 0\<rparr>, False)
         | Some e \<Rightarrow> (r\<lparr>lastIndex := e\<rparr>, True))
      else (r, search (matcher r) False s 0 \<noteq> None))"

text \<open>
  The pattern \<open>/lit/\<close> (with the flag \<open>g\<close> when \<open>g\<close> is true) for a literal without
  metacharacters, newly made.
\<close>

definition literal_at :: "string \<Rightarrow> string \<Rightarrow> nat \<Rightarrow> nat option" where
  "literal_at lit s i =
     (if take (length lit) (drop i s) = lit then Some (i + length lit) else None)"

definition regexp_literal :: "string \<Rightarrow> bool \<Rightarrow> regexp" where
  "regexp_literal lit g =
     \<lparr>matcher = literal_at lit, global = g, sticky = False, lastIndex = 0\<rparr>"

text \<open>
  The objects that flow from \<open>MpruneTransformPath\<close> to the policy: \<open>otype\<close> is the
  source's field \<open>type\<close>, and \<open>start\<close> is \<open>None\<close> for the source's \<open>null\<close>.
\<close>

record obj =
  otype :: string
  path :: string
  start :: "date option"
  basename :: string

text \<open>
  The instructions pushed to the target: \<open>dtype\<close> is the source's field \<open>type\<close>
  (\<open>''skip''\<close> or \<open>''remove''\<close>), \<open>reason\<close> is \<open>None\<close> where the source leaves it
  undefined.
\<close>

record decision =
  dtype :: string
  dpath :: string
  reason :: "string option"

datatype error = VError string | AssertionError

text \<open>A \<open>warn\<close> event of \<open>vsWarn\<close>: the error and its kind.\<close>

record warning =
  werror :: error
  wkind :: string

text \<open>
  A JavaScript object used as a dictionary is an association list in the order in which
  the keys were created: \<open>map_of\<close> reads a property, \<open>AList.update\<close> writes one (a new
  key goes to the end). A key is the number it was written with (the property name is
  the string of that number, and different numbers have different strings).
\<close>

definition hasOwnProperty :: "('k \<times> 'v) list \<Rightarrow> 'k \<Rightarrow> bool" where
  "hasOwnProperty ob k = (map_of ob k \<noteq> None)"

type_synonym daytree = "(nat jsnumber \<times> obj list) list"
type_synonym monthtree = "(nat jsnumber \<times> daytree) list"
type_synonym yeartree = "(int jsnumber \<times> monthtree) list"

text \<open>
  The state of one operation. \<open>patterns\<close> is the store of the \<open>RegExp\<close> objects and
  \<open>heap\<close> the store of the arrays of references to them, the address of an object or
  array being its index (\<open>p_expect\<close> of the caller lives in \<open>heap\<close>, and so do the copies
  that \<open>slice(0)\<close> makes, which hold the same references). The other fields are those of
  the \<open>MprunePolicyTwiceMonthly\<close> object: \<open>mpm_expect\<close> is the address of its array,
  \<open>pushed\<close> is what it has pushed to its readable side, \<open>warned\<close> the \<open>warn\<close> events it
  has emitted, and \<open>ended\<close> whether it has pushed the final \<open>null\<close>.
\<close>

record engine =
  heap :: "nat list list"
  patterns :: "regexp list"
  mpm_root :: yeartree
  mpm_expect :: nat
  pushed :: "decision list"
  warned :: "warning list"
  ended :: bool

section \<open>dayIsComplete\<close>

text \<open>
  \<open>xs.slice(0)\<close>: a new array with the elements of the array at \<open>a\<close>, which are
  references.
\<close>

definition slice0 :: "nat list list \<Rightarrow> nat \<Rightarrow> nat list list \<times> nat" where
  "slice0 h a = (h @ [h ! a], length h)"

text \<open>\<open>xs.splice(i, 1)\<close> for an index inside the array.\<close>

definition splice1 :: "'a list \<Rightarrow> nat \<Rightarrow> 'a list" where
  "splice1 xs i = take i xs @ drop (Suc i) xs"

text \<open>
  The inner loop of \<open>dayIsComplete\<close> for one basename \<open>b\<close>, on the array at address
  \<open>r\<close>, from index \<open>i\<close>: \<open>regexps[i].test(o.basename)\<close> is a call on the object that the
  element refers to, and what \<open>test\<close> writes stays in that object. After a removal the
  source decrements \<open>i\<close> and the loop header increments it, so the same index is tested
  again. (\<open>r\<close> is the address of the working copy and always inside the store; the test
  \<open>r < length h\<close> is there for the recursion to be well-founded.)
\<close>

function regexps_loop :: "nat list list \<Rightarrow> regexp list \<Rightarrow> nat \<Rightarrow> string \<Rightarrow> nat \<Rightarrow> nat list list \<times> regexp list" where
  "regexps_loop h rs r b i =
     (if r < length h \<and> i < length (h ! r) then
        (case test (rs ! (h ! r ! i)) b of
           (rx, matched) \<Rightarrow>
             if matched
             then regexps_loop (h[r := splice1 (h ! r) i]) (rs[h ! r ! i := rx]) r b i
             else regexps_loop h (rs[h ! r ! i := rx]) r b (Suc i))
      else (h, rs))"
  by pat_completeness auto
termination
  by (relation "measure (\<lambda>(h, rs, r, b, i). length (h ! r) - i)") (auto simp: splice1_def)

declare regexps_loop.simps [simp del]

definition dayIsComplete :: "engine \<Rightarrow> daytree \<Rightarrow> nat \<Rightarrow> engine \<times> bool" where
  "dayIsComplete s tree which =
     (case map_of tree (Number which) of
        None \<Rightarrow> (s, False)
      | Some objects \<Rightarrow>
          if length objects = 0 then (s, False)
          else if length (heap s ! mpm_expect s) = 0 then (s, True)
          else
            (case slice0 (heap s) (mpm_expect s) of (h0, regexps) \<Rightarrow>
             case fold (\<lambda>ob (h, rs). regexps_loop h rs regexps (basename ob) 0) objects
                    (h0, patterns s) of
               (h1, rs1) \<Rightarrow>
                 (s\<lparr>heap := h1, patterns := rs1\<rparr>, length (h1 ! regexps) = 0)))"

section \<open>processMonth\<close>

text \<open>
  The two scanning loops of \<open>processMonth\<close>: from day \<open>d\<close>, while the day is below
  \<open>lim\<close> and not complete, go to the next day. The result is the value of the loop
  variable after the loop.
\<close>

function scan_days :: "engine \<Rightarrow> daytree \<Rightarrow> nat \<Rightarrow> nat \<Rightarrow> engine \<times> nat" where
  "scan_days s tree d lim =
     (if d < lim then
        (case dayIsComplete s tree d of (s', c) \<Rightarrow>
           if c then (s', d) else scan_days s' tree (Suc d) lim)
      else (s, d))"
  by pat_completeness auto
termination
  by (relation "measure (\<lambda>(s, tree, d, lim). lim - d)") auto

declare scan_days.simps [simp del]

definition vsWarn :: "engine \<Rightarrow> error \<Rightarrow> string \<Rightarrow> engine" where
  "vsWarn s err kind = s\<lparr>warned := warned s @ [\<lparr>werror = err, wkind = kind\<rparr>]\<rparr>"

definition push :: "engine \<Rightarrow> decision \<Rightarrow> engine" where
  "push s d = s\<lparr>pushed := pushed s @ [d]\<rparr>"

text \<open>The body of \<open>objects.forEach\<close> in the emission loop, for an object of day \<open>i\<close>.\<close>

definition emit_object :: "bool \<Rightarrow> nat \<Rightarrow> nat \<Rightarrow> nat \<Rightarrow> obj \<Rightarrow> engine \<Rightarrow> engine" where
  "emit_object skip first second i ob s =
     (if skip then
        push s \<lparr>dtype = ''skip'', dpath = path ob,
          reason = Some ''could not determine which objects to keep in this month''\<rparr>
      else if i = first \<or> i = second then
        push s \<lparr>dtype = ''skip'', dpath = path ob, reason = Some ''designated for keeping''\<rparr>
      else
        push s \<lparr>dtype = ''remove'', dpath = path ob, reason = None\<rparr>)"

text \<open>
  The emission loop \<open>for (i = 0; i < 32; i++)\<close>, from \<open>i\<close>. A bucket that is present
  and empty fails the assertion \<open>objects.length > 0\<close>; a property that is present has a
  value, so the \<open>None\<close> case after \<open>hasOwnProperty\<close> is never taken.
\<close>

function emit_days :: "engine \<Rightarrow> bool \<Rightarrow> nat \<Rightarrow> nat \<Rightarrow> daytree \<Rightarrow> nat \<Rightarrow> error + engine" where
  "emit_days s skip first second monthtree i =
     (if i < 32 then
        (if \<not> hasOwnProperty monthtree (Number i)
         then emit_days s skip first second monthtree (Suc i)
         else
           (case map_of monthtree (Number i) of
              None \<Rightarrow> Inl AssertionError
            | Some objects \<Rightarrow>
                if \<not> length objects > 0 then Inl AssertionError
                else emit_days (fold (emit_object skip first second i) objects s)
                       skip first second monthtree (Suc i)))
      else Inr s)"
  by pat_completeness auto
termination
  by (relation "measure (\<lambda>(s, skip, first, second, monthtree, i). 32 - i)") auto

declare emit_days.simps [simp del]

text \<open>
  \<open>processMonth\<close>. The source's \<open>skip\<close> is undefined until one of the scans fails;
  undefined is false in a condition. A failed \<open>mod_assertplus.ok\<close> throws, which is
  the result \<open>Inl AssertionError\<close>.
\<close>

definition processMonth :: "engine \<Rightarrow> string \<Rightarrow> daytree \<Rightarrow> error + engine" where
  "processMonth s label monthtree =
     (case scan_days s monthtree 1 15 of (s1, first) \<Rightarrow>
      case (if first = 15
            then (vsWarn s1 (VError (label @ '': no valid objects found in days 1-14''))
                    ''nerr_missing'', True)
            else (s1, False)) of (s2, skip1) \<Rightarrow>
      case scan_days s2 monthtree 15 32 of (s3, second) \<Rightarrow>
      case (if second = 32
            then (vsWarn s3 (VError (label @ '': no valid objects found after day 15''))
                    ''nerr_missing'', True)
            else (s3, skip1)) of (s4, skip) \<Rightarrow>
      let s5 = (if \<not> skip \<and> first \<noteq> 1
                then vsWarn s4 (VError (label @ '': missing objects from day 1''))
                       ''nwarn_noday1''
                else s4);
          s6 = (if \<not> skip \<and> second \<noteq> 15
                then vsWarn s5 (VError (label @ '': missing objects from day 1''))
                       ''nwarn_noday2''
                else s5)
      in if \<not> (skip \<or> first \<noteq> second) then Inl AssertionError
         else emit_days s6 skip first second monthtree 0)"

section \<open>The stream: _transform and _flush\<close>

text \<open>
  \<open>MprunePolicyTwiceMonthly.prototype._transform\<close>: the new state and the argument of
  the callback (\<open>Some\<close> an error, or \<open>None\<close>). The only test is \<open>when === null\<close>; the
  getters of any other \<open>when\<close> give the three keys. The source walks down the tree through
  references and pushes the object onto the day's array in place; the model rebuilds
  the three levels around the extended array.
\<close>

definition MprunePolicyTwiceMonthly_transform :: "engine \<Rightarrow> obj \<Rightarrow> engine \<times> error option" where
  "MprunePolicyTwiceMonthly_transform s ob =
     (case start ob of
        None \<Rightarrow>
          (s, Some (VError (''found entry not under a particular time bucket: '' @ path ob)))
      | Some when \<Rightarrow>
          let y = getUTCFullYear when;
              ynode = (case map_of (mpm_root s) y of None \<Rightarrow> [] | Some n \<Rightarrow> n);
              m = plus1 (getUTCMonth when);
              mnode = (case map_of ynode m of None \<Rightarrow> [] | Some n \<Rightarrow> n);
              d = getUTCDate when;
              dnode = (case map_of mnode d of None \<Rightarrow> [] | Some n \<Rightarrow> n)
          in (s\<lparr>mpm_root :=
                  AList.update y (AList.update m (AList.update d (dnode @ [ob]) mnode) ynode)
                    (mpm_root s)\<rparr>,
              None))"

text \<open>
  The order in which \<open>for (key in obj)\<close> visits the own keys of an object: the keys
  that are array indices (integers from 0 to 2^32 - 2) in ascending order, then the other
  keys (negative numbers, \<open>NaN\<close>) in the order of their creation. \<open>f\<close> reads the number
  of a key as an integer.
\<close>

definition isArrayIndex :: "int \<Rightarrow> bool" where
  "isArrayIndex k = (0 \<le> k \<and> k \<le> 4294967294)"

fun keyIndex :: "('a \<Rightarrow> int) \<Rightarrow> 'a jsnumber \<Rightarrow> int option" where
  "keyIndex f NaN = None"
| "keyIndex f (Number a) = (if isArrayIndex (f a) then Some (f a) else None)"

definition ownKeys :: "('a \<Rightarrow> int) \<Rightarrow> ('a jsnumber \<times> 'v) list \<Rightarrow> 'a jsnumber list" where
  "ownKeys f ob =
     sort_key (\<lambda>k. the (keyIndex f k)) (filter (\<lambda>k. keyIndex f k \<noteq> None) (map fst ob)) @
     filter (\<lambda>k. keyIndex f k = None) (map fst ob)"

text \<open>
  \<open>mod_jsprim.forEachKey(obj, callback)\<close> on the keys \<open>ks\<close> still to visit; an exception
  thrown by the callback ends the iteration.
\<close>

fun forEachKey :: "('k \<times> 'v) list \<Rightarrow> ('k \<Rightarrow> 'v \<Rightarrow> 's \<Rightarrow> error + 's) \<Rightarrow> 'k list \<Rightarrow> 's \<Rightarrow> error + 's" where
  "forEachKey ob f [] s = Inr s"
| "forEachKey ob f (k # ks) s =
     (case map_of ob k of
        None \<Rightarrow> forEachKey ob f ks s
      | Some v \<Rightarrow> (case f k v s of Inl e \<Rightarrow> Inl e | Inr s' \<Rightarrow> forEachKey ob f ks s'))"

text \<open>
  Decimal digits of a number, and the keys as the strings that \<open>for ... in\<close> yields and
  \<open>sprintf\<close> prints: \<open>%s\<close> prints the year's string, \<open>%02d\<close> the month padded to two
  characters.
\<close>

fun digits :: "nat \<Rightarrow> string" where
  "digits n = (if n < 10 then [''0123456789'' ! n]
               else digits (n div 10) @ [''0123456789'' ! (n mod 10)])"

declare digits.simps [simp del]

fun yearString :: "int jsnumber \<Rightarrow> string" where
  "yearString NaN = ''NaN''"
| "yearString (Number k) = (if k < 0 then ''-'' @ digits (nat (- k)) else digits (nat k))"

fun monthString :: "nat jsnumber \<Rightarrow> string" where
  "monthString NaN = ''NaN''"
| "monthString (Number m) =
     (if length (digits m) < 2 then ''0'' @ digits m else digits m)"

text \<open>\<open>mod_extsprintf.sprintf('%s-%02d', year, month)\<close>.\<close>

definition sprintf_label :: "int jsnumber \<Rightarrow> nat jsnumber \<Rightarrow> string" where
  "sprintf_label year month = yearString year @ ''-'' @ monthString month"

text \<open>\<open>MprunePolicyTwiceMonthly.prototype._flush\<close>; \<open>push(null)\<close> ends the output.\<close>

definition MprunePolicyTwiceMonthly_flush :: "engine \<Rightarrow> error + engine" where
  "MprunePolicyTwiceMonthly_flush s =
     (case forEachKey (mpm_root s)
             (\<lambda>year yeartree s1.
                forEachKey yeartree
                  (\<lambda>month monthtree s2. processMonth s2 (sprintf_label year month) monthtree)
                  (ownKeys int yeartree) s1)
             (ownKeys id (mpm_root s)) s of
        Inl e \<Rightarrow> Inl e
      | Inr s' \<Rightarrow> Inr (s'\<lparr>ended := True\<rparr>))"

text \<open>
  What the stream machinery does with the policy: it calls \<open>_transform\<close> for each object
  written, stops at the first error passed to the callback (the stream emits it as
  \<open>error\<close>, and \<open>_flush\<close> is never called), and calls \<open>_flush\<close> when the input has ended.
\<close>

fun write_all :: "engine \<Rightarrow> obj list \<Rightarrow> error + engine" where
  "write_all s [] = Inr s"
| "write_all s (ob # obs) =
     (case MprunePolicyTwiceMonthly_transform s ob of
        (s', Some e) \<Rightarrow> Inl e
      | (s', None) \<Rightarrow> write_all s' obs)"

definition run_policy :: "engine \<Rightarrow> obj list \<Rightarrow> error + engine" where
  "run_policy s obs =
     (case write_all s obs of Inl e \<Rightarrow> Inl e | Inr s' \<Rightarrow> MprunePolicyTwiceMonthly_flush s')"

section \<open>Construction and policy lookup\<close>

datatype policy = MprunePolicyTwiceMonthly

definition mpPolicies :: "(string \<times> policy) list" where
  "mpPolicies = [(''twicemonthly'', MprunePolicyTwiceMonthly)]"

text \<open>
  \<open>String.prototype.toLowerCase\<close> on ASCII strings: the letters A to Z become a to z,
  every other character stays.
\<close>

definition lowerChar :: "char \<Rightarrow> char" where
  "lowerChar c =
     (case map_of (zip ''ABCDEFGHIJKLMNOPQRSTUVWXYZ'' ''abcdefghijklmnopqrstuvwxyz'') c of
        None \<Rightarrow> c
      | Some l \<Rightarrow> l)"

definition toLowerCase :: "string \<Rightarrow> string" where
  "toLowerCase name = map lowerChar name"

text \<open>\<open>policyForName\<close> returns the error, it does not throw it.\<close>

definition policyForName :: "string \<Rightarrow> error + policy" where
  "policyForName name =
     (let t = toLowerCase name in
      if \<not> hasOwnProperty mpPolicies t then Inl (VError (''unsupported policy: '' @ name))
      else (case map_of mpPolicies t of
              None \<Rightarrow> Inl AssertionError
            | Some p \<Rightarrow> Inr p))"

text \<open>
  The constructor of \<open>MprunePolicyTwiceMonthly\<close>, given the two stores and the address of
  \<open>args.expect\<close>, and the part of the constructor of \<open>MpruneOperation\<close> that makes the
  policy: it passes \<open>args.p_expect.slice(0)\<close>, a new array holding the references that
  the caller's array holds. (The finder, the path transform and the target that the
  constructor also makes are collaborators of the policy.)
\<close>

definition MprunePolicyTwiceMonthly_new :: "nat list list \<Rightarrow> regexp list \<Rightarrow> nat \<Rightarrow> engine" where
  "MprunePolicyTwiceMonthly_new h rs expect =
     \<lparr>heap = h, patterns = rs, mpm_root = [], mpm_expect = expect, pushed = [], warned = [],
      ended = False\<rparr>"

definition MpruneOperation_new :: "nat list list \<Rightarrow> regexp list \<Rightarrow> nat \<Rightarrow> policy \<Rightarrow> error + engine" where
  "MpruneOperation_new h rs p_expect p_policy =
     (if \<not> (p_policy = MprunePolicyTwiceMonthly) then Inl AssertionError
      else (case slice0 h p_expect of (h', a) \<Rightarrow> Inr (MprunePolicyTwiceMonthly_new h' rs a)))"

text \<open>
  What the caller can do after the construction. It can change its own array (\<open>push\<close>,
  \<open>splice\<close>, an assignment to an index, ...): whatever it does, the array at
  \<open>p_expect\<close> holds some other list of references afterwards. And it can change a
  \<open>RegExp\<close> object in place, here by an assignment to its property \<open>lastIndex\<close>.
\<close>

definition caller_mutates :: "nat \<Rightarrow> nat list \<Rightarrow> engine \<Rightarrow> engine" where
  "caller_mutates p_expect xs s = s\<lparr>heap := (heap s)[p_expect := xs]\<rparr>"

definition caller_sets_lastIndex :: "nat \<Rightarrow> nat \<Rightarrow> engine \<Rightarrow> engine" where
  "caller_sets_lastIndex a n s =
     s\<lparr>patterns := (patterns s)[a := (patterns s ! a)\<lparr>lastIndex := n\<rparr>]\<rparr>"

text \<open>
  What happens to an operation after its construction, in the order in which it happens:
  an object is written to the policy, or the caller changes its array. \<open>run_events\<close>
  is the run with these changes, \<open>writes\<close> the objects written, and \<open>observe\<close> what a
  run shows: the error, or the instructions pushed, the warnings and the end of output.
\<close>

datatype event = Write obj | Mutate "nat list"

fun run_events :: "nat \<Rightarrow> engine \<Rightarrow> event list \<Rightarrow> error + engine" where
  "run_events p_expect s [] = MprunePolicyTwiceMonthly_flush s"
| "run_events p_expect s (Write ob # evs) =
     (case MprunePolicyTwiceMonthly_transform s ob of
        (s', Some e) \<Rightarrow> Inl e
      | (s', None) \<Rightarrow> run_events p_expect s' evs)"
| "run_events p_expect s (Mutate xs # evs) = run_events p_expect (caller_mutates p_expect xs s) evs"

fun writes :: "event list \<Rightarrow> obj list" where
  "writes [] = []"
| "writes (Write ob # evs) = ob # writes evs"
| "writes (Mutate xs # evs) = writes evs"

definition observe :: "error + engine \<Rightarrow> error + decision list \<times> warning list \<times> bool" where
  "observe r = (case r of Inl e \<Rightarrow> Inl e | Inr s \<Rightarrow> Inr (pushed s, warned s, ended s))"

section \<open>The specification's reading of completeness\<close>

text \<open>
  A pattern matches a string when a search from the start of the string finds a match:
  what \<open>test\<close> answers on an object whose \<open>lastIndex\<close> is 0. \<open>expected\<close> is the stored
  expected list, as the objects that the array at \<open>mpm_expect\<close> refers to.
\<close>

definition matches :: "regexp \<Rightarrow> string \<Rightarrow> bool" where
  "matches r b = (search (matcher r) (sticky r) b 0 \<noteq> None)"

definition expected :: "engine \<Rightarrow> regexp list" where
  "expected s = map (\<lambda>a. patterns s ! a) (heap s ! mpm_expect s)"

text \<open>
  The one-to-one reading: each basename, in bucket order, removes from the working copy
  the first remaining pattern that it matches, and no other; the day is complete when
  the working copy has become empty.
\<close>

fun remove_first_match :: "regexp list \<Rightarrow> string \<Rightarrow> regexp list" where
  "remove_first_match [] b = []"
| "remove_first_match (p # ps) b = (if matches p b then ps else p # remove_first_match ps b)"

definition one_to_one_complete :: "regexp list \<Rightarrow> obj list \<Rightarrow> bool" where
  "one_to_one_complete expect objects =
     (fold (\<lambda>ob ps. remove_first_match ps (basename ob)) objects expect = [])"

text \<open>The stored expected patterns have neither the flag \<open>g\<close> nor the flag \<open>y\<close>.\<close>

definition flagless :: "engine \<Rightarrow> bool" where
  "flagless s = list_all (\<lambda>r. \<not> global r \<and> \<not> sticky r) (expected s)"

text \<open>A case variant of a string: the same letters, each in either case.\<close>

definition upperChar :: "char \<Rightarrow> char" where
  "upperChar c =
     (case map_of (zip ''abcdefghijklmnopqrstuvwxyz'' ''ABCDEFGHIJKLMNOPQRSTUVWXYZ'') c of
        None \<Rightarrow> c
      | Some u \<Rightarrow> u)"

definition case_variant :: "string \<Rightarrow> string \<Rightarrow> bool" where
  "case_variant name lit = list_all2 (\<lambda>c d. c = lowerChar d \<or> c = upperChar d) name lit"

section \<open>Invariants of the bucket tree\<close>

text \<open>
  A month of the tree that \<open>_transform\<close> builds from valid dates: one bucket per day,
  the days those that \<open>getUTCDate\<close> returns, and no bucket empty.
\<close>

fun dayKey :: "nat jsnumber \<Rightarrow> bool" where
  "dayKey NaN = False"
| "dayKey (Number d) = (1 \<le> d \<and> d \<le> 31)"

fun dayOf :: "nat jsnumber \<Rightarrow> nat" where
  "dayOf NaN = 0"
| "dayOf (Number d) = d"

definition wf_days :: "daytree \<Rightarrow> bool" where
  "wf_days tree =
     (distinct (map fst tree) \<and> list_all (\<lambda>(k, objs). dayKey k \<and> objs \<noteq> []) tree)"

definition wf_months :: "monthtree \<Rightarrow> bool" where
  "wf_months yt = (distinct (map fst yt) \<and> list_all (\<lambda>(m, mt). wf_days mt) yt)"

definition wf_root :: "yeartree \<Rightarrow> bool" where
  "wf_root root = (distinct (map fst root) \<and> list_all (\<lambda>(y, yt). wf_months yt) root)"

text \<open>The objects held in a month, in a year and in the whole tree.\<close>

definition days_objs :: "daytree \<Rightarrow> obj list" where
  "days_objs mt = concat (map snd mt)"

definition months_objs :: "monthtree \<Rightarrow> obj list" where
  "months_objs yt = concat (map (\<lambda>(m, mt). days_objs mt) yt)"

definition root_objs :: "yeartree \<Rightarrow> obj list" where
  "root_objs root = concat (map (\<lambda>(y, yt). months_objs yt) root)"

section \<open>What the loops compute\<close>

text \<open>
  The loops of \<open>dayIsComplete\<close> and of the scans on the values that they read: the list
  \<open>xs\<close> of references that the working copy holds and the store \<open>rs\<close> of the \<open>RegExp\<close>
  objects. \<open>day_pure\<close> and \<open>scan_pure\<close> give the arrays allocated, the store
  afterwards and the result; \<open>month_scans\<close> does so for the two scans of a month.
\<close>

function consume :: "nat list \<Rightarrow> regexp list \<Rightarrow> string \<Rightarrow> nat \<Rightarrow> nat list \<times> regexp list" where
  "consume xs rs b i =
     (if i < length xs then
        (case test (rs ! (xs ! i)) b of
           (rx, matched) \<Rightarrow>
             if matched then consume (splice1 xs i) (rs[xs ! i := rx]) b i
             else consume xs (rs[xs ! i := rx]) b (Suc i))
      else (xs, rs))"
  by pat_completeness auto
termination
  by (relation "measure (\<lambda>(xs, rs, b, i). length xs - i)") (auto simp: splice1_def)

declare consume.simps [simp del]

definition day_consume :: "nat list \<Rightarrow> regexp list \<Rightarrow> obj list \<Rightarrow> nat list \<times> regexp list" where
  "day_consume xs rs objs = fold (\<lambda>ob (xs, rs). consume xs rs (basename ob) 0) objs (xs, rs)"

definition day_pure :: "nat list \<Rightarrow> regexp list \<Rightarrow> daytree \<Rightarrow> nat \<Rightarrow> nat list list \<times> regexp list \<times> bool" where
  "day_pure e rs tree d =
     (case map_of tree (Number d) of
        None \<Rightarrow> ([], rs, False)
      | Some objs \<Rightarrow>
          if objs = [] then ([], rs, False)
          else if e = [] then ([], rs, True)
          else (case day_consume e rs objs of (xs, rs') \<Rightarrow> ([xs], rs', xs = [])))"

function scan_pure :: "nat list \<Rightarrow> regexp list \<Rightarrow> daytree \<Rightarrow> nat \<Rightarrow> nat \<Rightarrow> nat list list \<times> regexp list \<times> nat" where
  "scan_pure e rs tree d lim =
     (if d < lim then
        (case day_pure e rs tree d of
           (new, rs', c) \<Rightarrow>
             if c then (new, rs', d)
             else (case scan_pure e rs' tree (Suc d) lim of
                     (new', rs'', n) \<Rightarrow> (new @ new', rs'', n)))
      else ([], rs, d))"
  by pat_completeness auto
termination
  by (relation "measure (\<lambda>(e, rs, tree, d, lim). lim - d)") auto

declare scan_pure.simps [simp del]

definition month_scans :: "nat list \<Rightarrow> regexp list \<Rightarrow> daytree \<Rightarrow> nat list list \<times> regexp list \<times> nat \<times> nat" where
  "month_scans e rs tree =
     (case scan_pure e rs tree 1 15 of
        (new1, rs1, first) \<Rightarrow>
          (case scan_pure e rs1 tree 15 32 of
             (new2, rs2, second) \<Rightarrow> (new1 @ new2, rs2, first, second)))"

text \<open>
  For patterns without flags: whether a day meets the expected list \<open>e\<close>, and the first
  such day from \<open>d\<close> below \<open>lim\<close> (\<open>lim\<close> if there is none).
\<close>

definition day_met :: "nat list \<Rightarrow> regexp list \<Rightarrow> daytree \<Rightarrow> nat \<Rightarrow> bool" where
  "day_met e rs tree d =
     (case map_of tree (Number d) of
        None \<Rightarrow> False
      | Some objs \<Rightarrow>
          objs \<noteq> [] \<and> (\<forall>a\<in>set e. \<exists>ob\<in>set objs. matches (rs ! a) (basename ob)))"

definition first_met :: "nat list \<Rightarrow> regexp list \<Rightarrow> daytree \<Rightarrow> nat \<Rightarrow> nat \<Rightarrow> nat" where
  "first_met e rs tree d lim =
     (case find (day_met e rs tree) [d..<lim] of None \<Rightarrow> max d lim | Some k \<Rightarrow> k)"

text \<open>The instructions and the warnings of a month, given what the scans returned.\<close>

definition decide :: "bool \<Rightarrow> nat \<Rightarrow> nat \<Rightarrow> nat \<Rightarrow> obj \<Rightarrow> decision" where
  "decide skip first second i ob =
     (if skip then
        \<lparr>dtype = ''skip'', dpath = path ob,
          reason = Some ''could not determine which objects to keep in this month''\<rparr>
      else if i = first \<or> i = second then
        \<lparr>dtype = ''skip'', dpath = path ob, reason = Some ''designated for keeping''\<rparr>
      else \<lparr>dtype = ''remove'', dpath = path ob, reason = None\<rparr>)"

definition day_decisions :: "bool \<Rightarrow> nat \<Rightarrow> nat \<Rightarrow> daytree \<Rightarrow> nat \<Rightarrow> decision list" where
  "day_decisions skip first second tree i =
     (case map_of tree (Number i) of
        None \<Rightarrow> []
      | Some objs \<Rightarrow> map (decide skip first second i) objs)"

definition month_decisions :: "bool \<Rightarrow> nat \<Rightarrow> nat \<Rightarrow> daytree \<Rightarrow> nat \<Rightarrow> decision list" where
  "month_decisions skip first second tree i =
     concat (map (day_decisions skip first second tree) [i..<32])"

definition month_warnings :: "string \<Rightarrow> nat \<Rightarrow> nat \<Rightarrow> warning list" where
  "month_warnings label first second =
     (if first = 15
      then [\<lparr>werror = VError (label @ '': no valid objects found in days 1-14''),
              wkind = ''nerr_missing''\<rparr>] else []) @
     (if second = 32
      then [\<lparr>werror = VError (label @ '': no valid objects found after day 15''),
              wkind = ''nerr_missing''\<rparr>] else []) @
     (if first \<noteq> 15 \<and> second \<noteq> 32 \<and> first \<noteq> 1
      then [\<lparr>werror = VError (label @ '': missing objects from day 1''),
              wkind = ''nwarn_noday1''\<rparr>] else []) @
     (if first \<noteq> 15 \<and> second \<noteq> 32 \<and> second \<noteq> 15
      then [\<lparr>werror = VError (label @ '': missing objects from day 1''),
              wkind = ''nwarn_noday2''\<rparr>] else [])"

definition buckets_nonempty :: "daytree \<Rightarrow> bool" where
  "buckets_nonempty tree = (\<forall>i objs. map_of tree (Number i) = Some objs \<longrightarrow> objs \<noteq> [])"

text \<open>
  The months that \<open>_flush\<close> visits, in order, each with its label; what the visits of a
  list of months allocate, leave in the store, warn and push; the objects of the months
  visited; and the tree having no empty bucket.
\<close>

definition year_visits :: "int jsnumber \<Rightarrow> monthtree \<Rightarrow> nat jsnumber list \<Rightarrow> (string \<times> daytree) list" where
  "year_visits y yt ks =
     concat (map (\<lambda>m. case map_of yt m of None \<Rightarrow> [] | Some mt \<Rightarrow> [(sprintf_label y m, mt)]) ks)"

definition root_visits :: "yeartree \<Rightarrow> int jsnumber list \<Rightarrow> (string \<times> daytree) list" where
  "root_visits root ks =
     concat (map (\<lambda>y. case map_of root y of None \<Rightarrow> []
                       | Some yt \<Rightarrow> year_visits y yt (ownKeys int yt)) ks)"

fun visits_pure :: "nat list \<Rightarrow> regexp list \<Rightarrow> (string \<times> daytree) list \<Rightarrow> nat list list \<times> regexp list \<times> warning list \<times> decision list" where
  "visits_pure e rs [] = ([], rs, [], [])"
| "visits_pure e rs ((label, mt) # vs) =
     (case month_scans e rs mt of
        (new, rs1, first, second) \<Rightarrow>
          (case visits_pure e rs1 vs of
             (new', rs2, ws, ds) \<Rightarrow>
               (new @ new', rs2,
                month_warnings label first second @ ws,
                month_decisions (first = 15 \<or> second = 32) first second mt 0 @ ds)))"

definition visit_objs :: "(string \<times> daytree) list \<Rightarrow> obj list" where
  "visit_objs vs = concat (map (\<lambda>(label, mt). days_objs mt) vs)"

definition months_nonempty :: "monthtree \<Rightarrow> bool" where
  "months_nonempty yt = (\<forall>m mt. map_of yt m = Some mt \<longrightarrow> buckets_nonempty mt)"

definition root_nonempty :: "yeartree \<Rightarrow> bool" where
  "root_nonempty root = (\<forall>y yt. map_of root y = Some yt \<longrightarrow> months_nonempty yt)"

section \<open>Example inputs\<close>

text \<open>
  The patterns \<open>/a\.log/\<close>, \<open>/b\.log/\<close> and \<open>/a\.log/g\<close>; an engine whose store holds
  the \<open>RegExp\<close> objects \<open>rs\<close> and the one array that refers to all of them; and an
  object \<open>name\<close> under \<open>dir\<close> dated day \<open>d\<close> of June 2020.
\<close>

definition a_log :: regexp where
  "a_log = regexp_literal ''a.log'' False"

definition b_log :: regexp where
  "b_log = regexp_literal ''b.log'' False"

definition a_log_g :: regexp where
  "a_log_g = regexp_literal ''a.log'' True"

definition ex_engine :: "regexp list \<Rightarrow> engine" where
  "ex_engine rs =
     \<lparr>heap = [[0..<length rs]], patterns = rs, mpm_root = [], mpm_expect = 0, pushed = [],
      warned = [], ended = False\<rparr>"

definition ex_obj :: "string \<Rightarrow> string \<Rightarrow> nat \<Rightarrow> obj" where
  "ex_obj dir name d =
     \<lparr>otype = ''object'', path = dir @ ''/'' @ name, start = Some (UTCDate 2020 5 d),
      basename = name\<rparr>"

text \<open>
  Two months: one with objects on days 20, 5 and 7 (in the order of their arrival), and
  one with objects on days 20 and 25 only.
\<close>

definition ex_month_both :: daytree where
  "ex_month_both =
     [(Number 20, [ex_obj ''/r/2020/06/20'' ''a.log'' 20]),
      (Number 5, [ex_obj ''/r/2020/06/05'' ''a.log'' 5, ex_obj ''/r/2020/06/05'' ''b.log'' 5]),
      (Number 7, [ex_obj ''/r/2020/06/07'' ''a.log'' 7])]"

definition ex_month_late :: daytree where
  "ex_month_late =
     [(Number 20, [ex_obj ''/r/2020/06/20'' ''a.log'' 20]),
      (Number 25, [ex_obj ''/r/2020/06/25'' ''a.log'' 25])]"

text \<open>Four objects of two months, in an order of arrival.\<close>

definition ex_objects :: "obj list" where
  "ex_objects =
     [ex_obj ''/r/2020/06/20'' ''a.log'' 20, ex_obj ''/r/2020/06/05'' ''a.log'' 5,
      (ex_obj ''/r/2019/12/31'' ''b.log'' 31)\<lparr>start := Some (UTCDate 2019 11 31)\<rparr>,
      ex_obj ''/r/2020/06/05'' ''b.log'' 5]"

text \<open>
  An object whose path gave an invalid date, a month with one object on each of the days
  1, 2, 15 and 16, and a month with one object on each of the days 1 and 15.
\<close>

definition ex_undated :: obj where
  "ex_undated =
     \<lparr>otype = ''object'', path = ''/r/misc/notes.txt'', start = Some InvalidDate,
      basename = ''notes.txt''\<rparr>"

definition ex_month_daily :: daytree where
  "ex_month_daily =
     [(Number 1, [ex_obj ''/r/2020/06/01'' ''a.log'' 1]),
      (Number 2, [ex_obj ''/r/2020/06/02'' ''a.log'' 2]),
      (Number 15, [ex_obj ''/r/2020/06/15'' ''a.log'' 15]),
      (Number 16, [ex_obj ''/r/2020/06/16'' ''a.log'' 16])]"

definition ex_month_two :: daytree where
  "ex_month_two =
     [(Number 1, [ex_obj ''/r/2020/06/01'' ''a.log'' 1]),
      (Number 15, [ex_obj ''/r/2020/06/15'' ''a.log'' 15])]"

section \<open>The loops on the values that they read\<close>

lemma regexps_loop_consume:
  "r < length h \<Longrightarrow>
   regexps_loop h rs r b i =
     (h[r := fst (consume (h ! r) rs b i)], snd (consume (h ! r) rs b i))"
proof (induction h rs r b i rule: regexps_loop.induct)
  case (1 h rs r b i)
  show ?case
  proof (cases "i < length (h ! r)")
    case False
    with 1(3) show ?thesis
      by (subst regexps_loop.simps, subst (1 2) consume.simps) simp
  next
    case True
    obtain rx matched where t: "test (rs ! (h ! r ! i)) b = (rx, matched)"
      by (cases "test (rs ! (h ! r ! i)) b")
    show ?thesis
    proof (cases matched)
      case True
      have "regexps_loop h rs r b i =
            regexps_loop (h[r := splice1 (h ! r) i]) (rs[h ! r ! i := rx]) r b i"
        using \<open>i < length (h ! r)\<close> 1(3) t True by (subst regexps_loop.simps) simp
      also have "\<dots> = (h[r := fst (consume (splice1 (h ! r) i) (rs[h ! r ! i := rx]) b i)],
                        snd (consume (splice1 (h ! r) i) (rs[h ! r ! i := rx]) b i))"
        using 1(1)[OF _ t[symmetric] True] \<open>i < length (h ! r)\<close> 1(3) by simp
      also have "consume (splice1 (h ! r) i) (rs[h ! r ! i := rx]) b i = consume (h ! r) rs b i"
        using \<open>i < length (h ! r)\<close> t True by (subst (2) consume.simps) simp
      finally show ?thesis .
    next
      case False
      have "regexps_loop h rs r b i = regexps_loop h (rs[h ! r ! i := rx]) r b (Suc i)"
        using \<open>i < length (h ! r)\<close> 1(3) t False by (subst regexps_loop.simps) simp
      also have "\<dots> = (h[r := fst (consume (h ! r) (rs[h ! r ! i := rx]) b (Suc i))],
                        snd (consume (h ! r) (rs[h ! r ! i := rx]) b (Suc i)))"
        using 1(2)[OF _ t[symmetric] False] \<open>i < length (h ! r)\<close> 1(3) by simp
      also have "consume (h ! r) (rs[h ! r ! i := rx]) b (Suc i) = consume (h ! r) rs b i"
        using \<open>i < length (h ! r)\<close> t False by (subst (2) consume.simps) simp
      finally show ?thesis .
    qed
  qed
qed

lemma fold_regexps_loop:
  "r < length h \<Longrightarrow>
   fold (\<lambda>ob (h, rs). regexps_loop h rs r (basename ob) 0) objs (h, rs) =
     (h[r := fst (day_consume (h ! r) rs objs)], snd (day_consume (h ! r) rs objs))"
proof (induction objs arbitrary: h rs)
  case Nil
  then show ?case by (simp add: day_consume_def)
next
  case (Cons ob objs)
  obtain xs rs' where c: "consume (h ! r) rs (basename ob) 0 = (xs, rs')"
    by (cases "consume (h ! r) rs (basename ob) 0")
  have "fold (\<lambda>ob (h, rs). regexps_loop h rs r (basename ob) 0) (ob # objs) (h, rs) =
        fold (\<lambda>ob (h, rs). regexps_loop h rs r (basename ob) 0) objs (h[r := xs], rs')"
    using Cons.prems by (simp add: regexps_loop_consume c)
  also have "\<dots> = ((h[r := xs])[r := fst (day_consume xs rs' objs)], snd (day_consume xs rs' objs))"
    using Cons.IH[of "h[r := xs]" rs'] Cons.prems by simp
  also have "day_consume xs rs' objs = day_consume (h ! r) rs (ob # objs)"
    by (simp add: day_consume_def c)
  finally show ?case by simp
qed

lemma dayIsComplete_pure:
  assumes "mpm_expect s < length (heap s)"
  shows "dayIsComplete s tree d =
           (case day_pure (heap s ! mpm_expect s) (patterns s) tree d of
              (new, rs', c) \<Rightarrow> (s\<lparr>heap := heap s @ new, patterns := rs'\<rparr>, c))"
proof (cases "map_of tree (Number d)")
  case None
  then show ?thesis by (simp add: dayIsComplete_def day_pure_def)
next
  case (Some objs)
  show ?thesis
  proof (cases "objs = [] \<or> heap s ! mpm_expect s = []")
    case True
    then show ?thesis using Some by (auto simp: dayIsComplete_def day_pure_def)
  next
    case False
    obtain xs rs' where c: "day_consume (heap s ! mpm_expect s) (patterns s) objs = (xs, rs')"
      by (cases "day_consume (heap s ! mpm_expect s) (patterns s) objs")
    have f: "fold (\<lambda>ob (h, rs). regexps_loop h rs (length (heap s)) (basename ob) 0) objs
               (heap s @ [heap s ! mpm_expect s], patterns s) = (heap s @ [xs], rs')"
      using fold_regexps_loop[of "length (heap s)" "heap s @ [heap s ! mpm_expect s]" objs "patterns s"]
      by (simp add: c)
    show ?thesis
      using Some False
      by (simp add: dayIsComplete_def day_pure_def slice0_def f c)
  qed
qed

lemma scan_days_pure:
  assumes "mpm_expect s < length (heap s)"
  shows "scan_days s tree d lim =
           (case scan_pure (heap s ! mpm_expect s) (patterns s) tree d lim of
              (new, rs', n) \<Rightarrow> (s\<lparr>heap := heap s @ new, patterns := rs'\<rparr>, n))"
  using assms
proof (induction s tree d lim rule: scan_days.induct)
  case (1 s tree d lim)
  let ?e = "heap s ! mpm_expect s"
  show ?case
  proof (cases "d < lim")
    case False
    then show ?thesis
      by (subst scan_days.simps, subst scan_pure.simps) simp
  next
    case True
    obtain new rs' c where dp: "day_pure ?e (patterns s) tree d = (new, rs', c)"
      by (cases "day_pure ?e (patterns s) tree d")
    let ?s' = "s\<lparr>heap := heap s @ new, patterns := rs'\<rparr>"
    have dc: "dayIsComplete s tree d = (?s', c)"
      using dayIsComplete_pure[OF 1(2)] dp by simp
    show ?thesis
    proof (cases c)
      case True
      then show ?thesis
        using \<open>d < lim\<close> dc dp by (subst scan_days.simps, subst scan_pure.simps) simp
    next
      case False
      have v: "mpm_expect ?s' < length (heap ?s')" using 1(2) by simp
      have e: "heap ?s' ! mpm_expect ?s' = ?e" using 1(2) by (simp add: nth_append)
      obtain new' rs'' n where sp: "scan_pure ?e rs' tree (Suc d) lim = (new', rs'', n)"
        by (cases "scan_pure ?e rs' tree (Suc d) lim")
      have "scan_days ?s' tree (Suc d) lim = (?s'\<lparr>heap := heap ?s' @ new', patterns := rs''\<rparr>, n)"
        using 1(1)[OF True dc[symmetric] False v] unfolding e by (simp add: sp)
      then show ?thesis
        using \<open>d < lim\<close> dc dp False sp
        by (subst scan_days.simps, subst scan_pure.simps) simp
    qed
  qed
qed

lemma fold_emit_object:
  "fold (emit_object skip first second i) objs s =
   s\<lparr>pushed := pushed s @ map (decide skip first second i) objs\<rparr>"
  by (induction objs arbitrary: s) (auto simp: emit_object_def decide_def push_def)

lemma emit_days_eq:
  assumes "buckets_nonempty tree"
  shows "emit_days s skip first second tree i =
         Inr (s\<lparr>pushed := pushed s @ month_decisions skip first second tree i\<rparr>)"
  using assms
proof (induction s skip first second tree i rule: emit_days.induct)
  case (1 s skip first second monthtree i)
  show ?case
  proof (cases "i < 32")
    case False
    then show ?thesis
      by (subst emit_days.simps) (simp add: month_decisions_def)
  next
    case True
    then have upt: "[i..<32] = i # [Suc i..<32]"
      by (simp add: upt_conv_Cons)
    show ?thesis
    proof (cases "map_of monthtree (Number i)")
      case None
      then show ?thesis
        using True 1(1) 1(3)
        by (subst emit_days.simps)
          (simp add: hasOwnProperty_def month_decisions_def upt day_decisions_def)
    next
      case (Some objs)
      then have ne: "objs \<noteq> []" using 1(3) by (auto simp: buckets_nonempty_def)
      have h: "hasOwnProperty monthtree (Number i)"
        using Some by (simp add: hasOwnProperty_def)
      have "emit_days s skip first second monthtree i =
            emit_days (fold (emit_object skip first second i) objs s) skip first second monthtree (Suc i)"
        using True Some ne h by (subst emit_days.simps) simp
      also have "\<dots> = Inr (s\<lparr>pushed := pushed s @ month_decisions skip first second monthtree i\<rparr>)"
        using 1(2)[OF True _ Some _ 1(3)] ne h Some
        by (simp add: fold_emit_object month_decisions_def upt day_decisions_def)
      finally show ?thesis .
    qed
  qed
qed

lemma scan_pure_bounds:
  "d \<le> lim \<Longrightarrow> d \<le> snd (snd (scan_pure e rs tree d lim)) \<and>
               snd (snd (scan_pure e rs tree d lim)) \<le> lim"
proof (induction e rs tree d lim rule: scan_pure.induct)
  case (1 e rs tree d lim)
  show ?case
  proof (cases "d < lim")
    case False
    with 1(2) show ?thesis by (subst (1 2) scan_pure.simps) simp
  next
    case True
    obtain new rs' c where dp: "day_pure e rs tree d = (new, rs', c)"
      by (cases "day_pure e rs tree d")
    show ?thesis
    proof (cases c)
      case True
      then show ?thesis using \<open>d < lim\<close> dp by (subst (1 2) scan_pure.simps) simp
    next
      case False
      have "Suc d \<le> snd (snd (scan_pure e rs' tree (Suc d) lim)) \<and>
            snd (snd (scan_pure e rs' tree (Suc d) lim)) \<le> lim"
        using 1(1)[OF True dp[symmetric] _ False] True by simp
      then show ?thesis
        using \<open>d < lim\<close> dp False
        by (subst (1 2) scan_pure.simps) (auto split: prod.splits)
    qed
  qed
qed

lemma processMonth_pure:
  assumes v: "mpm_expect s < length (heap s)" and ne: "buckets_nonempty tree"
    and ms: "month_scans (heap s ! mpm_expect s) (patterns s) tree = (new, rs', first, second)"
  shows "processMonth s label tree =
           Inr (s\<lparr>heap := heap s @ new, patterns := rs',
                  warned := warned s @ month_warnings label first second,
                  pushed := pushed s @
                    month_decisions (first = 15 \<or> second = 32) first second tree 0\<rparr>)"
proof -
  let ?e = "heap s ! mpm_expect s"
  obtain new1 rs1 where p1: "scan_pure ?e (patterns s) tree 1 15 = (new1, rs1, first)"
    using ms by (auto simp: month_scans_def split: prod.splits)
  obtain new2 where p2: "scan_pure ?e rs1 tree 15 32 = (new2, rs', second)"
    and n: "new = new1 @ new2"
    using ms p1 by (auto simp: month_scans_def split: prod.splits)
  define t1 where "t1 = s\<lparr>heap := heap s @ new1, patterns := rs1\<rparr>"
  have s1: "scan_days s tree 1 15 = (t1, first)"
    using scan_days_pure[OF v, of tree 1 15] p1 by (simp add: t1_def)
  define s2 where "s2 = (if first = 15
            then vsWarn t1 (VError (label @ '': no valid objects found in days 1-14''))
                    ''nerr_missing''
            else t1)"
  have v2: "mpm_expect s2 < length (heap s2)" and e2: "heap s2 ! mpm_expect s2 = ?e"
    and r2: "patterns s2 = rs1"
    using v by (auto simp: s2_def t1_def vsWarn_def nth_append)
  define s3 where "s3 = s2\<lparr>heap := heap s2 @ new2, patterns := rs'\<rparr>"
  have sc3: "scan_days s2 tree 15 32 = (s3, second)"
    using scan_days_pure[OF v2, of tree 15 32] p2 unfolding e2 r2 by (simp add: s3_def)
  define s4 where "s4 = (if second = 32
            then vsWarn s3 (VError (label @ '': no valid objects found after day 15''))
                    ''nerr_missing''
            else s3)"
  define skip where "skip = (first = 15 \<or> second = 32)"
  define s5 where "s5 = (if \<not> skip \<and> first \<noteq> 1
                then vsWarn s4 (VError (label @ '': missing objects from day 1''))
                       ''nwarn_noday1''
                else s4)"
  define s6 where "s6 = (if \<not> skip \<and> second \<noteq> 15
                then vsWarn s5 (VError (label @ '': missing objects from day 1''))
                       ''nwarn_noday2''
                else s5)"
  have step1: "(if first = 15
            then (vsWarn t1 (VError (label @ '': no valid objects found in days 1-14''))
                    ''nerr_missing'', True)
            else (t1, False)) = (s2, first = 15)"
    by (simp add: s2_def)
  have step2: "(if second = 32
            then (vsWarn s3 (VError (label @ '': no valid objects found after day 15''))
                    ''nerr_missing'', True)
            else (s3, first = 15)) = (s4, skip)"
    by (simp add: s4_def skip_def)
  have b1: "1 \<le> first \<and> first \<le> 15"
    using scan_pure_bounds[of 1 15 ?e "patterns s" tree] p1 by simp
  have b2: "15 \<le> second \<and> second \<le> 32"
    using scan_pure_bounds[of 15 32 ?e rs1 tree] p2 by simp
  have noassert: "skip \<or> first \<noteq> second"
    using b1 b2 by (auto simp: skip_def)
  have "processMonth s label tree = emit_days s6 skip first second tree 0"
    unfolding processMonth_def s1 prod.case step1 sc3 step2 Let_def
      s5_def[symmetric] s6_def[symmetric]
    using noassert by simp
  also have "\<dots> = Inr (s6\<lparr>pushed := pushed s6 @ month_decisions skip first second tree 0\<rparr>)"
    by (rule emit_days_eq[OF ne])
  also have "s6\<lparr>pushed := pushed s6 @ month_decisions skip first second tree 0\<rparr> =
           s\<lparr>heap := heap s @ new, patterns := rs',
                  warned := warned s @ month_warnings label first second,
                  pushed := pushed s @
                    month_decisions (first = 15 \<or> second = 32) first second tree 0\<rparr>"
    by (simp add: s6_def s5_def s4_def s3_def s2_def t1_def vsWarn_def month_warnings_def
        skip_def n)
  finally show ?thesis .
qed

section \<open>Patterns without flags\<close>

lemma test_flagless:
  "\<not> global r \<Longrightarrow> \<not> sticky r \<Longrightarrow> test r b = (r, matches r b)"
  by (simp add: test_def matches_def)

lemma consume_flagless:
  assumes "\<forall>a\<in>set xs. \<not> global (rs ! a) \<and> \<not> sticky (rs ! a)"
  shows "consume xs rs b i =
           (take i xs @ filter (\<lambda>a. \<not> matches (rs ! a) b) (drop i xs), rs)"
  using assms
proof (induction xs rs b i rule: consume.induct)
  case (1 xs rs b i)
  show ?case
  proof (cases "i < length xs")
    case False
    then show ?thesis by (subst consume.simps) simp
  next
    case True
    note inb = this
    have fl: "\<not> global (rs ! (xs ! i)) \<and> \<not> sticky (rs ! (xs ! i))"
      using 1(3) inb by simp
    have t: "test (rs ! (xs ! i)) b = (rs ! (xs ! i), matches (rs ! (xs ! i)) b)"
      using fl by (simp add: test_flagless)
    have id: "rs[xs ! i := rs ! (xs ! i)] = rs" by simp
    have dr: "drop i xs = (xs ! i) # drop (Suc i) xs"
      using inb by (simp add: Cons_nth_drop_Suc)
    show ?thesis
    proof (cases "matches (rs ! (xs ! i)) b")
      case True
      have sub: "\<forall>a\<in>set (splice1 xs i). \<not> global (rs ! a) \<and> \<not> sticky (rs ! a)"
        using 1(3) by (auto simp: splice1_def dest: in_set_takeD in_set_dropD)
      have "consume xs rs b i = consume (splice1 xs i) rs b i"
        using inb t True by (subst consume.simps) (simp add: id)
      also have "\<dots> = (take i (splice1 xs i) @
                          filter (\<lambda>a. \<not> matches (rs ! a) b) (drop i (splice1 xs i)), rs)"
        using 1(1)[OF inb t[symmetric] True] sub by (simp add: id)
      also have "\<dots> = (take i xs @ filter (\<lambda>a. \<not> matches (rs ! a) b) (drop i xs), rs)"
        using inb True by (simp add: splice1_def dr min_def)
      finally show ?thesis .
    next
      case False
      have "consume xs rs b i = consume xs rs b (Suc i)"
        using inb t False by (subst consume.simps) (simp add: id)
      also have "\<dots> = (take (Suc i) xs @
                          filter (\<lambda>a. \<not> matches (rs ! a) b) (drop (Suc i) xs), rs)"
        using 1(2)[OF inb t[symmetric] False] 1(3) by (simp add: id)
      also have "\<dots> = (take i xs @ filter (\<lambda>a. \<not> matches (rs ! a) b) (drop i xs), rs)"
        using inb False by (simp add: dr take_Suc_conv_app_nth)
      finally show ?thesis .
    qed
  qed
qed

lemma day_consume_flagless:
  assumes "\<forall>a\<in>set xs. \<not> global (rs ! a) \<and> \<not> sticky (rs ! a)"
  shows "day_consume xs rs objs =
           (filter (\<lambda>a. \<forall>ob\<in>set objs. \<not> matches (rs ! a) (basename ob)) xs, rs)"
  using assms
proof (induction objs arbitrary: xs)
  case Nil
  then show ?case by (simp add: day_consume_def)
next
  case (Cons ob objs)
  let ?ys = "filter (\<lambda>a. \<not> matches (rs ! a) (basename ob)) xs"
  have c: "consume xs rs (basename ob) 0 = (?ys, rs)"
    using consume_flagless[OF Cons.prems, of "basename ob" 0] by simp
  have sub: "\<forall>a\<in>set ?ys. \<not> global (rs ! a) \<and> \<not> sticky (rs ! a)"
    using Cons.prems by simp
  have "day_consume xs rs (ob # objs) = day_consume ?ys rs objs"
    by (simp add: day_consume_def c)
  also have "\<dots> = (filter (\<lambda>a. \<forall>ob\<in>set objs. \<not> matches (rs ! a) (basename ob)) ?ys, rs)"
    by (rule Cons.IH[OF sub])
  also have "filter (\<lambda>a. \<forall>ob\<in>set objs. \<not> matches (rs ! a) (basename ob)) ?ys =
             filter (\<lambda>a. \<forall>ob\<in>set (ob # objs). \<not> matches (rs ! a) (basename ob)) xs"
    by (simp add: conj_commute)
  finally show ?case .
qed

lemma day_pure_flagless:
  assumes "\<forall>a\<in>set e. \<not> global (rs ! a) \<and> \<not> sticky (rs ! a)"
  shows "\<exists>new. day_pure e rs tree d = (new, rs, day_met e rs tree d)"
  using day_consume_flagless[OF assms]
  by (auto simp: day_pure_def day_met_def filter_empty_conv split: option.splits)

lemma scan_pure_flagless:
  assumes "\<forall>a\<in>set e. \<not> global (rs ! a) \<and> \<not> sticky (rs ! a)"
  shows "\<exists>new. scan_pure e rs tree d lim = (new, rs, first_met e rs tree d lim)"
proof (induction "lim - d" arbitrary: d)
  case 0
  then have "\<not> d < lim" by simp
  then have "scan_pure e rs tree d lim = ([], rs, first_met e rs tree d lim)"
    by (subst scan_pure.simps) (simp add: first_met_def)
  then show ?case by blast
next
  case (Suc k)
  then have lt: "d < lim" by simp
  have upt: "[d..<lim] = d # [Suc d..<lim]"
    using lt by (simp add: upt_conv_Cons)
  obtain new where dp: "day_pure e rs tree d = (new, rs, day_met e rs tree d)"
    using day_pure_flagless[OF assms] by blast
  show ?case
  proof (cases "day_met e rs tree d")
    case True
    have "scan_pure e rs tree d lim = (new, rs, first_met e rs tree d lim)"
      using lt dp True by (subst scan_pure.simps) (simp add: first_met_def upt)
    then show ?thesis by blast
  next
    case False
    obtain new' where r: "scan_pure e rs tree (Suc d) lim = (new', rs, first_met e rs tree (Suc d) lim)"
    proof -
      have "k = lim - Suc d" using Suc(2) by arith
      from Suc(1)[OF this] show ?thesis using that by blast
    qed
    have "scan_pure e rs tree d lim = (new @ new', rs, first_met e rs tree d lim)"
      using lt dp False r by (subst scan_pure.simps) (simp add: first_met_def upt)
    then show ?thesis by blast
  qed
qed

lemma first_met_cases:
  assumes "d \<le> lim"
  shows "(first_met e rs tree d lim = lim \<and>
            (\<forall>k. d \<le> k \<and> k < lim \<longrightarrow> \<not> day_met e rs tree k)) \<or>
         (d \<le> first_met e rs tree d lim \<and> first_met e rs tree d lim < lim \<and>
          day_met e rs tree (first_met e rs tree d lim) \<and>
          (\<forall>k. d \<le> k \<and> k < first_met e rs tree d lim \<longrightarrow> \<not> day_met e rs tree k))"
proof (cases "find (day_met e rs tree) [d..<lim]")
  case None
  then have "\<forall>k. d \<le> k \<and> k < lim \<longrightarrow> \<not> day_met e rs tree k"
    by (auto simp: find_None_iff)
  moreover have "first_met e rs tree d lim = lim"
    using None assms by (simp add: first_met_def)
  ultimately show ?thesis by blast
next
  case (Some n)
  then obtain i where i: "i < lim - d" "day_met e rs tree (d + i)" "n = d + i"
    "\<forall>j<i. \<not> day_met e rs tree (d + j)"
    by (auto simp: find_Some_iff)
  have fm: "first_met e rs tree d lim = d + i"
    using Some i by (simp add: first_met_def)
  have "\<forall>k. d \<le> k \<and> k < d + i \<longrightarrow> \<not> day_met e rs tree k"
  proof (intro allI impI)
    fix k assume k: "d \<le> k \<and> k < d + i"
    then have "k - d < i" by arith
    with i(4) have "\<not> day_met e rs tree (d + (k - d))" by blast
    with k show "\<not> day_met e rs tree k" by simp
  qed
  with fm i show ?thesis by auto
qed

lemma flagless_iff:
  "flagless s \<longleftrightarrow>
   (\<forall>a\<in>set (heap s ! mpm_expect s). \<not> global (patterns s ! a) \<and> \<not> sticky (patterns s ! a))"
  by (simp add: flagless_def expected_def list_all_iff)

lemma dayIsComplete_flagless:
  assumes "mpm_expect s < length (heap s)" and "flagless s"
  shows "\<exists>new. dayIsComplete s tree d =
           (s\<lparr>heap := heap s @ new\<rparr>, day_met (heap s ! mpm_expect s) (patterns s) tree d)"
proof -
  obtain new where "day_pure (heap s ! mpm_expect s) (patterns s) tree d =
      (new, patterns s, day_met (heap s ! mpm_expect s) (patterns s) tree d)"
    using day_pure_flagless assms(2) unfolding flagless_iff by blast
  then have "dayIsComplete s tree d =
           (s\<lparr>heap := heap s @ new\<rparr>, day_met (heap s ! mpm_expect s) (patterns s) tree d)"
    using dayIsComplete_pure[OF assms(1), of tree d] by simp
  then show ?thesis by blast
qed

lemma scan_days_flagless:
  assumes "mpm_expect s < length (heap s)" and "flagless s"
  shows "\<exists>new. scan_days s tree d lim =
           (s\<lparr>heap := heap s @ new\<rparr>,
            first_met (heap s ! mpm_expect s) (patterns s) tree d lim)"
proof -
  obtain new where "scan_pure (heap s ! mpm_expect s) (patterns s) tree d lim =
      (new, patterns s, first_met (heap s ! mpm_expect s) (patterns s) tree d lim)"
    using scan_pure_flagless assms(2) unfolding flagless_iff by blast
  then have "scan_days s tree d lim =
           (s\<lparr>heap := heap s @ new\<rparr>,
            first_met (heap s ! mpm_expect s) (patterns s) tree d lim)"
    using scan_days_pure[OF assms(1), of tree d lim] by simp
  then show ?thesis by blast
qed

section \<open>Facts about a month\<close>

lemma lookup_sum:
  fixes F :: "'k \<Rightarrow> 'v \<Rightarrow> 'a::comm_monoid_add"
  assumes d: "distinct (map fst al)" and dk: "distinct ks" and sub: "fst ` set al \<subseteq> set ks"
  shows "sum_list (map (\<lambda>k. case map_of al k of None \<Rightarrow> 0 | Some v \<Rightarrow> F k v) ks) =
         sum_list (map (\<lambda>(k, v). F k v) al)"
proof -
  let ?g = "\<lambda>k. case map_of al k of None \<Rightarrow> 0 | Some v \<Rightarrow> F k v"
  have dal: "distinct al" using d by (simp add: distinct_map)
  have inj: "inj_on fst (set al)" using d by (simp add: distinct_map)
  have "sum_list (map ?g ks) = sum ?g (set ks)"
    using dk by (simp add: sum_list_distinct_conv_sum_set)
  also have "\<dots> = sum ?g (fst ` set al)"
  proof (rule sum.mono_neutral_right)
    show "finite (set ks)" by simp
    show "fst ` set al \<subseteq> set ks" by (rule sub)
    show "\<forall>i\<in>set ks - fst ` set al. ?g i = 0"
      by (auto simp: map_of_eq_None_iff[symmetric] simp del: map_of_eq_None_iff split: option.splits)
  qed
  also have "\<dots> = sum (?g \<circ> fst) (set al)"
    using inj by (rule sum.reindex)
  also have "\<dots> = sum (\<lambda>(k, v). F k v) (set al)"
    using d by (intro sum.cong) auto
  also have "\<dots> = sum_list (map (\<lambda>(k, v). F k v) al)"
    using dal by (simp add: sum_list_distinct_conv_sum_set)
  finally show ?thesis .
qed

lemma lookup_concat_mset:
  assumes "distinct (map fst al)" and "distinct ks" and "fst ` set al \<subseteq> set ks"
  shows "mset (concat (map (\<lambda>k. case map_of al k of None \<Rightarrow> [] | Some v \<Rightarrow> F k v) ks)) =
         mset (concat (map (\<lambda>(k, v). F k v) al))"
proof -
  have "mset (concat (map (\<lambda>k. case map_of al k of None \<Rightarrow> [] | Some v \<Rightarrow> F k v) ks)) =
        sum_list (map (\<lambda>k. case map_of al k of None \<Rightarrow> {#} | Some v \<Rightarrow> mset (F k v)) ks)"
    unfolding mset_concat map_map
    by (rule arg_cong[where f=sum_list], rule map_cong) (auto split: option.splits)
  also have "\<dots> = sum_list (map (\<lambda>(k, v). mset (F k v)) al)"
    using assms by (intro lookup_sum) auto
  also have "\<dots> = mset (concat (map (\<lambda>(k, v). F k v) al))"
    unfolding mset_concat map_map
    by (rule arg_cong[where f=sum_list], rule map_cong) auto
  finally show ?thesis .
qed

lemma dayKey_Number: "dayKey k \<Longrightarrow> k = Number (dayOf k) \<and> 1 \<le> dayOf k \<and> dayOf k \<le> 31"
  by (cases k) simp_all

lemma wf_days_nonempty: "wf_days tree \<Longrightarrow> buckets_nonempty tree"
  by (auto simp: wf_days_def buckets_nonempty_def list_all_iff dest!: map_of_SomeD)

lemma mset_month_decisions:
  assumes "wf_days tree"
  shows "mset (month_decisions skip first second tree 0) =
         mset (concat (map (\<lambda>(k, objs). map (decide skip first second (dayOf k)) objs) tree))"
proof -
  have sub: "fst ` set tree \<subseteq> set (map Number [0..<32])"
  proof
    fix k assume "k \<in> fst ` set tree"
    then have "dayKey k" using assms by (auto simp: wf_days_def list_all_iff)
    then have "k = Number (dayOf k)" "dayOf k < 32"
      using dayKey_Number[of k] by auto
    then show "k \<in> set (map Number [0..<32])"
      by (metis atLeastLessThan_iff image_eqI le0 set_map set_upt)
  qed
  have dk: "distinct (map Number [0..<32] :: nat jsnumber list)"
    by (simp add: distinct_map inj_on_def)
  have "month_decisions skip first second tree 0 =
        concat (map (\<lambda>k. case map_of tree k of None \<Rightarrow> []
                        | Some objs \<Rightarrow> map (decide skip first second (dayOf k)) objs)
                  (map Number [0..<32]))"
    unfolding month_decisions_def map_map
    by (rule arg_cong[where f=concat], rule map_cong)
       (auto simp: day_decisions_def split: option.splits)
  also have "mset \<dots> =
        mset (concat (map (\<lambda>(k, objs). map (decide skip first second (dayOf k)) objs) tree))"
    using assms sub dk by (intro lookup_concat_mset) (auto simp: wf_days_def)
  finally show ?thesis .
qed


lemma decide_remove_day:
  "filter (\<lambda>dec. dtype dec = ''remove'') (map (decide False first second d) objs) =
   (if d \<noteq> first \<and> d \<noteq> second
    then map (\<lambda>ob. \<lparr>dtype = ''remove'', dpath = path ob, reason = None\<rparr>) objs else [])"
  by (induction objs) (simp_all add: decide_def)

lemma decide_remove_filter:
  assumes "list_all (\<lambda>(k, objs). dayKey k) tree"
  shows "filter (\<lambda>dec. dtype dec = ''remove'')
     (concat (map (\<lambda>(k, objs). map (decide False first second (dayOf k)) objs) tree)) =
   map (\<lambda>ob. \<lparr>dtype = ''remove'', dpath = path ob, reason = None\<rparr>)
     (days_objs (filter (\<lambda>(k, objs). k \<noteq> Number first \<and> k \<noteq> Number second) tree))"
  using assms
proof (induction tree)
  case Nil
  show ?case by (simp add: days_objs_def)
next
  case (Cons p tree)
  obtain k objs where p: "p = (k, objs)" by (cases p)
  have "dayKey k" using Cons.prems unfolding p by simp
  then obtain d where k: "k = Number d" using dayKey_Number by blast
  have ih: "filter (\<lambda>dec. dtype dec = ''remove'')
     (concat (map (\<lambda>(k, objs). map (decide False first second (dayOf k)) objs) tree)) =
   map (\<lambda>ob. \<lparr>dtype = ''remove'', dpath = path ob, reason = None\<rparr>)
     (days_objs (filter (\<lambda>(k, objs). k \<noteq> Number first \<and> k \<noteq> Number second) tree))"
    using Cons by simp
  show ?case
    using ih unfolding p k by (simp add: days_objs_def decide_remove_day)
qed

lemma month_shape:
  assumes v: "mpm_expect s < length (heap s)" and ne: "buckets_nonempty tree"
  defines "first \<equiv> snd (scan_days s tree 1 15)"
  defines "second \<equiv> snd (scan_days (fst (scan_days s tree 1 15)) tree 15 32)"
  shows "\<exists>new rs'. processMonth s label tree =
           Inr (s\<lparr>heap := heap s @ new, patterns := rs',
                  warned := warned s @ month_warnings label first second,
                  pushed := pushed s @
                    month_decisions (first = 15 \<or> second = 32) first second tree 0\<rparr>)"
    and "1 \<le> first \<and> first \<le> 15 \<and> 15 \<le> second \<and> second \<le> 32"
proof -
  let ?e = "heap s ! mpm_expect s"
  obtain new1 rs1 f where p1: "scan_pure ?e (patterns s) tree 1 15 = (new1, rs1, f)"
    by (cases "scan_pure ?e (patterns s) tree 1 15")
  obtain new2 rs2 g where p2: "scan_pure ?e rs1 tree 15 32 = (new2, rs2, g)"
    by (cases "scan_pure ?e rs1 tree 15 32")
  let ?s1 = "s\<lparr>heap := heap s @ new1, patterns := rs1\<rparr>"
  have s1: "scan_days s tree 1 15 = (?s1, f)"
    using scan_days_pure[OF v, of tree 1 15] p1 by simp
  have v1: "mpm_expect ?s1 < length (heap ?s1)" using v by simp
  have "scan_days ?s1 tree 15 32 = (?s1\<lparr>heap := heap ?s1 @ new2, patterns := rs2\<rparr>, g)"
    using scan_days_pure[OF v1, of tree 15 32] p2 v by (simp add: nth_append)
  then have fg: "first = f" "second = g"
    unfolding first_def second_def s1 by simp_all
  have ms: "month_scans ?e (patterns s) tree = (new1 @ new2, rs2, first, second)"
    unfolding fg month_scans_def p1 by (simp add: p2)
  show "\<exists>new rs'. processMonth s label tree =
           Inr (s\<lparr>heap := heap s @ new, patterns := rs',
                  warned := warned s @ month_warnings label first second,
                  pushed := pushed s @
                    month_decisions (first = 15 \<or> second = 32) first second tree 0\<rparr>)"
    using processMonth_pure[OF v ne ms] by blast
  show "1 \<le> first \<and> first \<le> 15 \<and> 15 \<le> second \<and> second \<le> 32"
    using scan_pure_bounds[of 1 15 ?e "patterns s" tree]
      scan_pure_bounds[of 15 32 ?e rs1 tree] p1 p2 unfolding fg by simp
qed

lemma flagless_scans:
  assumes v: "mpm_expect s < length (heap s)" and fl: "flagless s"
  shows "snd (scan_days s tree 1 15) =
           first_met (heap s ! mpm_expect s) (patterns s) tree 1 15"
    and "snd (scan_days (fst (scan_days s tree 1 15)) tree 15 32) =
           first_met (heap s ! mpm_expect s) (patterns s) tree 15 32"
    and "snd (dayIsComplete s tree d) = day_met (heap s ! mpm_expect s) (patterns s) tree d"
proof -
  obtain new where s1: "scan_days s tree 1 15 =
      (s\<lparr>heap := heap s @ new\<rparr>, first_met (heap s ! mpm_expect s) (patterns s) tree 1 15)"
    using scan_days_flagless[OF v fl] by blast
  let ?s1 = "s\<lparr>heap := heap s @ new\<rparr>"
  have v1: "mpm_expect ?s1 < length (heap ?s1)" using v by simp
  have e1: "heap ?s1 ! mpm_expect ?s1 = heap s ! mpm_expect s"
    using v by (simp add: nth_append)
  have fl1: "flagless ?s1"
    using fl v unfolding flagless_iff by (simp add: nth_append)
  show "snd (scan_days s tree 1 15) =
           first_met (heap s ! mpm_expect s) (patterns s) tree 1 15"
    unfolding s1 by simp
  show "snd (scan_days (fst (scan_days s tree 1 15)) tree 15 32) =
           first_met (heap s ! mpm_expect s) (patterns s) tree 15 32"
    using scan_days_flagless[OF v1 fl1, of tree 15 32] unfolding s1 e1 by auto
  show "snd (dayIsComplete s tree d) = day_met (heap s ! mpm_expect s) (patterns s) tree d"
    using dayIsComplete_flagless[OF v fl, of tree d] by auto
qed


lemma nondegraded_scans:
  assumes v: "mpm_expect s < length (heap s)"
    and nd: "(flagless s \<and> (\<exists>d\<in>{1..14}. snd (dayIsComplete s tree d)) \<and>
                (\<exists>d\<in>{15..31}. snd (dayIsComplete s tree d))) \<or>
             (snd (scan_days s tree 1 15) \<noteq> 15 \<and>
              snd (scan_days (fst (scan_days s tree 1 15)) tree 15 32) \<noteq> 32)"
  shows "snd (scan_days s tree 1 15) \<noteq> 15 \<and>
         snd (scan_days (fst (scan_days s tree 1 15)) tree 15 32) \<noteq> 32"
proof (cases "flagless s \<and> (\<exists>d\<in>{1..14}. snd (dayIsComplete s tree d)) \<and>
                (\<exists>d\<in>{15..31}. snd (dayIsComplete s tree d))")
  case False
  with nd show ?thesis by blast
next
  case True
  then have fl: "flagless s" by blast
  let ?e = "heap s ! mpm_expect s" and ?rs = "patterns s"
  from True have "(\<exists>k. 1 \<le> k \<and> k < 15 \<and> day_met ?e ?rs tree k)"
    "(\<exists>k. 15 \<le> k \<and> k < 32 \<and> day_met ?e ?rs tree k)"
    by (auto simp: flagless_scans(3)[OF v fl])
  then have "first_met ?e ?rs tree 1 15 \<noteq> 15 \<and> first_met ?e ?rs tree 15 32 \<noteq> 32"
    using first_met_cases[of 1 15 ?e ?rs tree] first_met_cases[of 15 32 ?e ?rs tree]
    by auto
  then show ?thesis
    unfolding flagless_scans(1,2)[OF v fl] .
qed

lemma nondegraded_month:
  assumes v: "mpm_expect s < length (heap s)" and wf: "wf_days tree"
    and nd: "(flagless s \<and> (\<exists>d\<in>{1..14}. snd (dayIsComplete s tree d)) \<and>
                (\<exists>d\<in>{15..31}. snd (dayIsComplete s tree d))) \<or>
             (snd (scan_days s tree 1 15) \<noteq> 15 \<and>
              snd (scan_days (fst (scan_days s tree 1 15)) tree 15 32) \<noteq> 32)"
  shows "\<exists>s1 first s3 second new rs'.
           scan_days s tree 1 15 = (s1, first) \<and>
           scan_days s1 tree 15 32 = (s3, second) \<and>
           1 \<le> first \<and> first \<le> 14 \<and> 15 \<le> second \<and> second \<le> 31 \<and>
           processMonth s label tree =
             Inr (s\<lparr>heap := heap s @ new, patterns := rs',
                    warned := warned s @ month_warnings label first second,
                    pushed := pushed s @ month_decisions False first second tree 0\<rparr>)"
proof -
  define first where "first = snd (scan_days s tree 1 15)"
  define s1 where "s1 = fst (scan_days s tree 1 15)"
  define second where "second = snd (scan_days s1 tree 15 32)"
  define s3 where "s3 = fst (scan_days s1 tree 15 32)"
  have n: "first \<noteq> 15 \<and> second \<noteq> 32"
    using nondegraded_scans[OF v nd] by (simp add: first_def second_def s1_def)
  have b: "1 \<le> first \<and> first \<le> 15 \<and> 15 \<le> second \<and> second \<le> 32"
    using month_shape(2)[OF v wf_days_nonempty[OF wf]]
    by (simp add: first_def second_def s1_def)
  obtain new rs' where pm: "processMonth s label tree =
           Inr (s\<lparr>heap := heap s @ new, patterns := rs',
                  warned := warned s @ month_warnings label first second,
                  pushed := pushed s @
                    month_decisions (first = 15 \<or> second = 32) first second tree 0\<rparr>)"
    using month_shape(1)[OF v wf_days_nonempty[OF wf], of label]
    unfolding first_def second_def s1_def by blast
  have ns: "(first = 15 \<or> second = 32) = False" using n by simp
  have "scan_days s tree 1 15 = (s1, first)" "scan_days s1 tree 15 32 = (s3, second)"
    by (simp_all add: first_def s1_def second_def s3_def)
  with n b pm show ?thesis unfolding ns
    by (intro exI[of _ s1] exI[of _ first] exI[of _ s3] exI[of _ second] exI[of _ new]
        exI[of _ rs']) auto
qed

section \<open>Writing objects and looking a policy up\<close>

lemma transform_Some:
  "start ob = Some w \<Longrightarrow>
   \<exists>root. MprunePolicyTwiceMonthly_transform s ob = (s\<lparr>mpm_root := root\<rparr>, None)"
  by (simp add: MprunePolicyTwiceMonthly_transform_def Let_def) (rule exI, rule refl)

lemma write_all_nonnull:
  "\<forall>x\<in>set xs. start x \<noteq> None \<Longrightarrow> \<exists>root. write_all s xs = Inr (s\<lparr>mpm_root := root\<rparr>)"
proof (induction xs arbitrary: s)
  case Nil
  have "write_all s [] = Inr (s\<lparr>mpm_root := mpm_root s\<rparr>)" by simp
  then show ?case by blast
next
  case (Cons x xs)
  then obtain w where w: "start x = Some w" by auto
  obtain r where r: "MprunePolicyTwiceMonthly_transform s x = (s\<lparr>mpm_root := r\<rparr>, None)"
    using transform_Some[OF w] by blast
  obtain r' where "write_all (s\<lparr>mpm_root := r\<rparr>) xs = Inr (s\<lparr>mpm_root := r\<rparr>\<lparr>mpm_root := r'\<rparr>)"
    using Cons.IH[of "s\<lparr>mpm_root := r\<rparr>"] Cons.prems by auto
  then have "write_all s (x # xs) = Inr (s\<lparr>mpm_root := r'\<rparr>)"
    using r by simp
  then show ?case by blast
qed

lemma write_all_append:
  "write_all s (xs @ ys) =
   (case write_all s xs of Inl e \<Rightarrow> Inl e | Inr s' \<Rightarrow> write_all s' ys)"
  by (induction xs arbitrary: s) (auto split: prod.splits option.splits)

lemma case_variant_lower:
  assumes "case_variant name lit"
    and "\<forall>d\<in>set lit. lowerChar d = d \<and> lowerChar (upperChar d) = d"
  shows "toLowerCase name = lit"
  using assms unfolding case_variant_def toLowerCase_def
proof (induction name lit rule: list_all2_induct)
  case Nil
  show ?case by simp
next
  case (Cons c name d lit)
  then have "lowerChar c = d"
    by auto
  with Cons show ?case by simp
qed

section \<open>The flush in closed form\<close>

lemma visits_pure_append:
  "visits_pure e rs (xs @ ys) =
   (case visits_pure e rs xs of
      (n1, rs1, w1, d1) \<Rightarrow>
        (case visits_pure e rs1 ys of
           (n2, rs2, w2, d2) \<Rightarrow> (n1 @ n2, rs2, w1 @ w2, d1 @ d2)))"
  by (induction xs arbitrary: rs) (auto split: prod.splits)

lemma forEachKey_months:
  assumes "mpm_expect s < length (heap s)" and "months_nonempty yt"
  shows "forEachKey yt (\<lambda>month mt s2. processMonth s2 (sprintf_label y month) mt) ks s =
         (case visits_pure (heap s ! mpm_expect s) (patterns s) (year_visits y yt ks) of
            (new, rs', ws, ds) \<Rightarrow>
              Inr (s\<lparr>heap := heap s @ new, patterns := rs', warned := warned s @ ws,
                     pushed := pushed s @ ds\<rparr>))"
  using assms(1)
proof (induction ks arbitrary: s)
  case Nil
  show ?case by (simp add: year_visits_def)
next
  case (Cons k ks)
  let ?e = "heap s ! mpm_expect s"
  let ?f = "\<lambda>month mt s2. processMonth s2 (sprintf_label y month) mt"
  show ?case
  proof (cases "map_of yt k")
    case None
    have yv: "year_visits y yt (k # ks) = year_visits y yt ks"
      using None by (simp add: year_visits_def)
    show ?thesis
      unfolding yv using None Cons.IH[OF Cons.prems] by simp
  next
    case (Some mt)
    have ne: "buckets_nonempty mt"
      using assms(2) Some by (auto simp: months_nonempty_def)
    obtain new rs1 first second where ms:
      "month_scans ?e (patterns s) mt = (new, rs1, first, second)"
      by (cases "month_scans ?e (patterns s) mt")
    define s' where "s' = s\<lparr>heap := heap s @ new, patterns := rs1,
                  warned := warned s @ month_warnings (sprintf_label y k) first second,
                  pushed := pushed s @
                    month_decisions (first = 15 \<or> second = 32) first second mt 0\<rparr>"
    have pm: "processMonth s (sprintf_label y k) mt = Inr s'"
      unfolding s'_def by (rule processMonth_pure[OF Cons.prems ne ms])
    have v': "mpm_expect s' < length (heap s')" and e': "heap s' ! mpm_expect s' = ?e"
      and p': "patterns s' = rs1"
      using Cons.prems by (simp_all add: s'_def nth_append)
    obtain new' rs2 ws ds where vp:
      "visits_pure ?e rs1 (year_visits y yt ks) = (new', rs2, ws, ds)"
      by (cases "visits_pure ?e rs1 (year_visits y yt ks)")
    have r: "forEachKey yt ?f ks s' =
           Inr (s'\<lparr>heap := heap s' @ new', patterns := rs2, warned := warned s' @ ws,
                   pushed := pushed s' @ ds\<rparr>)"
      using Cons.IH[OF v'] unfolding e' p' vp by simp
    have yv: "year_visits y yt (k # ks) = (sprintf_label y k, mt) # year_visits y yt ks"
      using Some by (simp add: year_visits_def)
    show ?thesis
      unfolding yv using Some pm r ms vp by (simp add: s'_def)
  qed
qed

lemma forEachKey_years:
  assumes "mpm_expect s < length (heap s)" and "root_nonempty root"
  shows "forEachKey root
             (\<lambda>year yeartree s1.
                forEachKey yeartree
                  (\<lambda>month monthtree s2. processMonth s2 (sprintf_label year month) monthtree)
                  (ownKeys int yeartree) s1) ks s =
         (case visits_pure (heap s ! mpm_expect s) (patterns s) (root_visits root ks) of
            (new, rs', ws, ds) \<Rightarrow>
              Inr (s\<lparr>heap := heap s @ new, patterns := rs', warned := warned s @ ws,
                     pushed := pushed s @ ds\<rparr>))"
  using assms(1)
proof (induction ks arbitrary: s)
  case Nil
  show ?case by (simp add: root_visits_def)
next
  case (Cons k ks)
  let ?e = "heap s ! mpm_expect s"
  let ?f = "\<lambda>year yeartree s1.
                forEachKey yeartree
                  (\<lambda>month monthtree s2. processMonth s2 (sprintf_label year month) monthtree)
                  (ownKeys int yeartree) s1"
  show ?case
  proof (cases "map_of root k")
    case None
    have yv: "root_visits root (k # ks) = root_visits root ks"
      using None by (simp add: root_visits_def)
    show ?thesis
      unfolding yv using None Cons.IH[OF Cons.prems] by simp
  next
    case (Some yt)
    have ne: "months_nonempty yt"
      using assms(2) Some by (auto simp: root_nonempty_def)
    let ?vs = "year_visits k yt (ownKeys int yt)"
    obtain new rs1 ws1 ds1 where v1: "visits_pure ?e (patterns s) ?vs = (new, rs1, ws1, ds1)"
      by (cases "visits_pure ?e (patterns s) ?vs")
    define s' where "s' = s\<lparr>heap := heap s @ new, patterns := rs1,
                  warned := warned s @ ws1, pushed := pushed s @ ds1\<rparr>"
    have pm: "?f k yt s = Inr s'"
      unfolding s'_def forEachKey_months[OF Cons.prems ne] v1 by simp
    have v': "mpm_expect s' < length (heap s')" and e': "heap s' ! mpm_expect s' = ?e"
      and p': "patterns s' = rs1"
      using Cons.prems by (simp_all add: s'_def nth_append)
    obtain new' rs2 ws ds where vp:
      "visits_pure ?e rs1 (root_visits root ks) = (new', rs2, ws, ds)"
      by (cases "visits_pure ?e rs1 (root_visits root ks)")
    have r: "forEachKey root ?f ks s' =
           Inr (s'\<lparr>heap := heap s' @ new', patterns := rs2, warned := warned s' @ ws,
                   pushed := pushed s' @ ds\<rparr>)"
      using Cons.IH[OF v'] unfolding e' p' vp by simp
    have yv: "root_visits root (k # ks) = ?vs @ root_visits root ks"
      using Some by (simp add: root_visits_def)
    have vv: "visits_pure ?e (patterns s) (root_visits root (k # ks)) =
            (new @ new', rs2, ws1 @ ws, ds1 @ ds)"
      unfolding yv visits_pure_append by (simp add: v1 vp)
    have "forEachKey root ?f (k # ks) s = forEachKey root ?f ks s'"
      using Some pm by simp
    then show ?thesis
      unfolding vv r by (simp add: s'_def)
  qed
qed

lemma flush_eq:
  assumes "mpm_expect s < length (heap s)" and "root_nonempty (mpm_root s)"
  shows "MprunePolicyTwiceMonthly_flush s =
         (case visits_pure (heap s ! mpm_expect s) (patterns s)
                 (root_visits (mpm_root s) (ownKeys id (mpm_root s))) of
            (new, rs', ws, ds) \<Rightarrow>
              Inr (s\<lparr>heap := heap s @ new, patterns := rs', warned := warned s @ ws,
                     pushed := pushed s @ ds, ended := True\<rparr>))"
  unfolding MprunePolicyTwiceMonthly_flush_def forEachKey_years[OF assms]
  by (simp split: prod.splits)

section \<open>The tree that the writes build\<close>

lemma set_update_subset: "set (AList.update k v al) \<subseteq> insert (k, v) (set al)"
  by (induction al) auto

lemma update_weight_add:
  fixes W :: "'v \<Rightarrow> 'a::comm_monoid_add"
  assumes "W v' = W (case map_of al k of None \<Rightarrow> dflt | Some old \<Rightarrow> old) + x" and "W dflt = 0"
  shows "sum_list (map (\<lambda>(k, v). W v) (AList.update k v' al)) =
         sum_list (map (\<lambda>(k, v). W v) al) + x"
  using assms
proof (induction al)
  case Nil
  then show ?case by simp
next
  case (Cons p al)
  obtain k0 v0 where p: "p = (k0, v0)" by (cases p)
  show ?case
  proof (cases "k0 = k")
    case True
    then show ?thesis using Cons.prems unfolding p by (simp add: ac_simps)
  next
    case False
    then have "sum_list (map (\<lambda>(k, v). W v) (AList.update k v' al)) =
         sum_list (map (\<lambda>(k, v). W v) al) + x"
      using Cons unfolding p by simp
    then show ?thesis using False unfolding p by (simp add: ac_simps)
  qed
qed

lemma wf_days_update:
  assumes "wf_days mt" and "dayKey k" and "objs \<noteq> []"
  shows "wf_days (AList.update k objs mt)"
  using assms set_update_subset[of k objs mt]
  by (auto simp: wf_days_def distinct_update list_all_iff)

lemma wf_months_update:
  assumes "wf_months yt" and "wf_days mt"
  shows "wf_months (AList.update m mt yt)"
  using assms set_update_subset[of m mt yt]
  by (auto simp: wf_months_def distinct_update list_all_iff)

lemma wf_root_update:
  assumes "wf_root root" and "wf_months yt"
  shows "wf_root (AList.update y yt root)"
  using assms set_update_subset[of y yt root]
  by (auto simp: wf_root_def distinct_update list_all_iff)

lemma wf_root_lookup:
  "wf_root root \<Longrightarrow> wf_months (case map_of root y of None \<Rightarrow> [] | Some n \<Rightarrow> n)"
  by (auto simp: wf_root_def wf_months_def list_all_iff split: option.splits dest!: map_of_SomeD)

lemma wf_months_lookup:
  "wf_months yt \<Longrightarrow> wf_days (case map_of yt m of None \<Rightarrow> [] | Some n \<Rightarrow> n)"
  by (auto simp: wf_months_def wf_days_def list_all_iff split: option.splits dest!: map_of_SomeD)

lemma validDate_dayKey: "validDate w \<Longrightarrow> dayKey (getUTCDate w)"
  by (cases w) simp_all

lemma transform_wf:
  assumes "start ob = Some w" and "validDate w" and "wf_root (mpm_root s)"
  shows "wf_root (mpm_root (fst (MprunePolicyTwiceMonthly_transform s ob)))"
  using assms
  by (simp add: MprunePolicyTwiceMonthly_transform_def Let_def validDate_dayKey
      wf_root_update wf_months_update wf_days_update wf_root_lookup wf_months_lookup)

lemma months_objs_sum: "mset (months_objs yt) = sum_list (map (\<lambda>(m, mt). mset (days_objs mt)) yt)"
  by (induction yt) (auto simp: months_objs_def)

lemma root_objs_sum: "mset (root_objs root) = sum_list (map (\<lambda>(y, yt). mset (months_objs yt)) root)"
  by (induction root) (auto simp: root_objs_def)

lemma days_objs_sum: "mset (days_objs mt) = sum_list (map (\<lambda>(d, objs). mset objs) mt)"
  by (induction mt) (auto simp: days_objs_def)

lemma transform_objs:
  assumes "start ob = Some w"
  shows "mset (root_objs (mpm_root (fst (MprunePolicyTwiceMonthly_transform s ob)))) =
         mset (root_objs (mpm_root s)) + {#ob#}"
proof -
  define y where "y = getUTCFullYear w"
  define ynode where "ynode = (case map_of (mpm_root s) y of None \<Rightarrow> [] | Some n \<Rightarrow> n)"
  define m where "m = plus1 (getUTCMonth w)"
  define mnode where "mnode = (case map_of ynode m of None \<Rightarrow> [] | Some n \<Rightarrow> n)"
  define d where "d = getUTCDate w"
  define dnode where "dnode = (case map_of mnode d of None \<Rightarrow> [] | Some n \<Rightarrow> n)"
  have r: "mpm_root (fst (MprunePolicyTwiceMonthly_transform s ob)) =
        AList.update y (AList.update m (AList.update d (dnode @ [ob]) mnode) ynode) (mpm_root s)"
    using assms
    by (simp add: MprunePolicyTwiceMonthly_transform_def Let_def y_def ynode_def m_def
        mnode_def d_def dnode_def)
  have a: "mset (days_objs (AList.update d (dnode @ [ob]) mnode)) = mset (days_objs mnode) + {#ob#}"
    unfolding days_objs_sum
    by (rule update_weight_add[where dflt="[]"]) (simp_all add: dnode_def)
  have b: "mset (months_objs (AList.update m (AList.update d (dnode @ [ob]) mnode) ynode)) =
           mset (months_objs ynode) + {#ob#}"
    unfolding months_objs_sum
  proof (rule update_weight_add[where dflt="[]"])
    show "mset (days_objs (AList.update d (dnode @ [ob]) mnode)) =
          mset (days_objs (case map_of ynode m of None \<Rightarrow> [] | Some old \<Rightarrow> old)) + {#ob#}"
      using a by (simp add: mnode_def)
    show "mset (days_objs []) = 0" by (simp add: days_objs_def)
  qed
  show ?thesis
    unfolding r root_objs_sum
  proof (rule update_weight_add[where dflt="[]"])
    show "mset (months_objs (AList.update m (AList.update d (dnode @ [ob]) mnode) ynode)) =
          mset (months_objs (case map_of (mpm_root s) y of None \<Rightarrow> [] | Some old \<Rightarrow> old)) +
          {#ob#}"
      using b by (simp add: ynode_def)
    show "mset (months_objs []) = 0" by (simp add: months_objs_def)
  qed
qed

lemma write_all_wf:
  assumes "\<forall>x\<in>set xs. \<exists>w. start x = Some w \<and> validDate w" and "wf_root (mpm_root s)"
  shows "\<exists>root. write_all s xs = Inr (s\<lparr>mpm_root := root\<rparr>) \<and> wf_root root \<and>
           mset (root_objs root) = mset (root_objs (mpm_root s)) + mset xs"
  using assms
proof (induction xs arbitrary: s)
  case Nil
  then show ?case by (intro exI[of _ "mpm_root s"]) simp
next
  case (Cons x xs)
  then obtain w where w: "start x = Some w" "validDate w" by auto
  obtain r where r: "MprunePolicyTwiceMonthly_transform s x = (s\<lparr>mpm_root := r\<rparr>, None)"
    using transform_Some[OF w(1)] by blast
  have wfr: "wf_root r" using transform_wf[OF w Cons.prems(2)] w r
    by simp
  have mr: "mset (root_objs r) = mset (root_objs (mpm_root s)) + {#x#}"
    using transform_objs[OF w(1), of s] r by simp
  obtain r' where r': "write_all (s\<lparr>mpm_root := r\<rparr>) xs = Inr (s\<lparr>mpm_root := r\<rparr>\<lparr>mpm_root := r'\<rparr>)"
    "wf_root r'" "mset (root_objs r') = mset (root_objs r) + mset xs"
    using Cons.IH[of "s\<lparr>mpm_root := r\<rparr>"] Cons.prems(1) wfr by auto
  have "write_all s (x # xs) = Inr (s\<lparr>mpm_root := r'\<rparr>)"
    using r r'(1) by simp
  with r'(2,3) mr show ?case by auto
qed

section \<open>Every object is decided once\<close>

lemma ownKeys_distinct:
  "distinct (map fst ob) \<Longrightarrow> distinct (ownKeys f ob)"
  by (auto simp: ownKeys_def)

lemma ownKeys_set: "set (ownKeys f ob) = fst ` set ob"
  by (auto simp: ownKeys_def)

lemma dpath_decide: "dpath (decide skip first second d ob) = path ob"
  by (simp add: decide_def)

lemma month_paths_mset:
  assumes "wf_days mt"
  shows "mset (map dpath (month_decisions skip first second mt 0)) =
         mset (map path (days_objs mt))"
proof -
  have c: "map dpath (concat (map (\<lambda>(k, objs). map (decide skip first second (dayOf k)) objs) mt)) =
        map path (days_objs mt)"
    by (induction mt) (auto simp: days_objs_def dpath_decide)
  have "mset (map dpath (month_decisions skip first second mt 0)) =
        image_mset dpath (mset (month_decisions skip first second mt 0))"
    by simp
  also have "\<dots> = mset (map dpath (concat (map (\<lambda>(k, objs).
       map (decide skip first second (dayOf k)) objs) mt)))"
    unfolding mset_month_decisions[OF assms] by simp
  finally show ?thesis unfolding c .
qed

lemma visits_paths:
  assumes "list_all (\<lambda>(label, mt). wf_days mt) vs"
  shows "mset (map dpath (snd (snd (snd (visits_pure e rs vs))))) =
         mset (map path (visit_objs vs))"
  using assms
proof (induction vs arbitrary: rs)
  case Nil
  show ?case by (simp add: visit_objs_def)
next
  case (Cons p vs)
  obtain label mt where p: "p = (label, mt)" by (cases p)
  have wf: "wf_days mt" and rest: "list_all (\<lambda>(label, mt). wf_days mt) vs"
    using Cons.prems unfolding p by simp_all
  obtain new rs1 first second where ms: "month_scans e rs mt = (new, rs1, first, second)"
    by (cases "month_scans e rs mt")
  obtain new' rs2 ws ds where vp: "visits_pure e rs1 vs = (new', rs2, ws, ds)"
    by (cases "visits_pure e rs1 vs")
  have ih: "mset (map dpath ds) = mset (map path (visit_objs vs))"
    using Cons.IH[OF rest, of rs1] unfolding vp by simp
  show ?case
    unfolding p using ih month_paths_mset[OF wf]
    by (simp add: ms vp visit_objs_def)
qed

lemma year_visit_objs:
  assumes "wf_months yt"
  shows "mset (visit_objs (year_visits y yt (ownKeys int yt))) = mset (months_objs yt)"
proof -
  have d: "distinct (map fst yt)" using assms by (simp add: wf_months_def)
  have "visit_objs (year_visits y yt ks) =
        concat (map (\<lambda>m. case map_of yt m of None \<Rightarrow> [] | Some mt \<Rightarrow> days_objs mt) ks)" for ks
    by (induction ks) (auto simp: visit_objs_def year_visits_def split: option.splits)
  then have "mset (visit_objs (year_visits y yt (ownKeys int yt))) =
        mset (concat (map (\<lambda>(m, mt). days_objs mt) yt))"
    by (simp only:) (rule lookup_concat_mset, simp_all add: d ownKeys_distinct ownKeys_set)
  then show ?thesis by (simp add: months_objs_def)
qed

lemma year_visits_wf:
  assumes "wf_months yt"
  shows "list_all (\<lambda>(label, mt). wf_days mt) (year_visits y yt ks)"
  using assms
  by (induction ks)
     (auto simp: year_visits_def wf_months_def list_all_iff split: option.splits
           dest!: map_of_SomeD)

lemma root_visit_objs:
  assumes "wf_root root"
  shows "mset (visit_objs (root_visits root (ownKeys id root))) = mset (root_objs root)"
proof -
  have d: "distinct (map fst root)" using assms by (simp add: wf_root_def)
  have va: "visit_objs (xs @ ys) = visit_objs xs @ visit_objs ys" for xs ys
    by (simp add: visit_objs_def)
  have "visit_objs (root_visits root ks) =
        concat (map (\<lambda>y. case map_of root y of None \<Rightarrow> []
           | Some yt \<Rightarrow> visit_objs (year_visits y yt (ownKeys int yt))) ks)" for ks
    by (induction ks) (auto simp: root_visits_def va visit_objs_def[of "[]"] split: option.splits)
  then have "mset (visit_objs (root_visits root (ownKeys id root))) =
        mset (concat (map (\<lambda>(y, yt). visit_objs (year_visits y yt (ownKeys int yt))) root))"
    by (simp only:) (rule lookup_concat_mset, simp_all add: d ownKeys_distinct ownKeys_set)
  also have "\<dots> = sum_list (map (\<lambda>(y, yt). mset (visit_objs (year_visits y yt (ownKeys int yt)))) root)"
    unfolding mset_concat map_map
    by (rule arg_cong[where f=sum_list], rule map_cong) auto
  also have "\<dots> = sum_list (map (\<lambda>(y, yt). mset (months_objs yt)) root)"
  proof (intro arg_cong[where f=sum_list] map_cong refl)
    fix p assume p: "p \<in> set root"
    obtain y yt where yt: "p = (y, yt)" by (cases p)
    have "wf_months yt"
      using assms p unfolding yt by (auto simp: wf_root_def list_all_iff)
    then show "(case p of (y, yt) \<Rightarrow> mset (visit_objs (year_visits y yt (ownKeys int yt)))) =
               (case p of (y, yt) \<Rightarrow> mset (months_objs yt))"
      unfolding yt by (simp only: prod.case year_visit_objs)
  qed
  also have "\<dots> = mset (root_objs root)"
    by (simp add: root_objs_sum)
  finally show ?thesis .
qed

lemma root_visits_wf:
  assumes "wf_root root"
  shows "list_all (\<lambda>(label, mt). wf_days mt) (root_visits root ks)"
proof (induction ks)
  case Nil
  show ?case by (simp add: root_visits_def)
next
  case (Cons k ks)
  show ?case
  proof (cases "map_of root k")
    case None
    then show ?thesis using Cons by (simp add: root_visits_def)
  next
    case (Some yt)
    then have "wf_months yt"
      using assms by (auto simp: wf_root_def list_all_iff dest!: map_of_SomeD)
    then show ?thesis
      using Cons Some year_visits_wf[of yt k "ownKeys int yt"] by (simp add: root_visits_def)
  qed
qed

lemma wf_root_nonempty: "wf_root root \<Longrightarrow> root_nonempty root"
  by (auto simp: wf_root_def wf_months_def root_nonempty_def months_nonempty_def list_all_iff
      intro!: wf_days_nonempty dest!: map_of_SomeD)

section \<open>The store outside the policy's array\<close>

lemma transform_nonempty:
  assumes "root_nonempty (mpm_root s)"
  shows "root_nonempty (mpm_root (fst (MprunePolicyTwiceMonthly_transform s ob)))"
proof (cases "start ob")
  case None
  then show ?thesis using assms by (simp add: MprunePolicyTwiceMonthly_transform_def)
next
  case (Some w)
  define y where "y = getUTCFullYear w"
  define ynode where "ynode = (case map_of (mpm_root s) y of None \<Rightarrow> [] | Some n \<Rightarrow> n)"
  define m where "m = plus1 (getUTCMonth w)"
  define mnode where "mnode = (case map_of ynode m of None \<Rightarrow> [] | Some n \<Rightarrow> n)"
  define d where "d = getUTCDate w"
  define dnode where "dnode = (case map_of mnode d of None \<Rightarrow> [] | Some n \<Rightarrow> n)"
  have r: "mpm_root (fst (MprunePolicyTwiceMonthly_transform s ob)) =
        AList.update y (AList.update m (AList.update d (dnode @ [ob]) mnode) ynode) (mpm_root s)"
    using Some
    by (simp add: MprunePolicyTwiceMonthly_transform_def Let_def y_def ynode_def m_def
        mnode_def d_def dnode_def)
  have yn: "months_nonempty ynode"
    using assms by (auto simp: ynode_def root_nonempty_def months_nonempty_def split: option.splits)
  then have mn: "buckets_nonempty mnode"
    by (auto simp: mnode_def months_nonempty_def buckets_nonempty_def split: option.splits)
  have a: "buckets_nonempty (AList.update d (dnode @ [ob]) mnode)"
    using mn by (auto simp: buckets_nonempty_def update_conv')
  have b: "months_nonempty (AList.update m (AList.update d (dnode @ [ob]) mnode) ynode)"
    using yn a by (auto simp: months_nonempty_def update_conv')
  show ?thesis
    unfolding r using assms b by (auto simp: root_nonempty_def update_conv')
qed

lemma transform_heap:
  "MprunePolicyTwiceMonthly_transform (s\<lparr>heap := h'\<rparr>) ob =
   (case MprunePolicyTwiceMonthly_transform s ob of (s1, r) \<Rightarrow> (s1\<lparr>heap := h'\<rparr>, r))"
  by (simp add: MprunePolicyTwiceMonthly_transform_def Let_def split: option.splits)

lemma transform_fields:
  "heap (fst (MprunePolicyTwiceMonthly_transform s ob)) = heap s \<and>
   patterns (fst (MprunePolicyTwiceMonthly_transform s ob)) = patterns s \<and>
   mpm_expect (fst (MprunePolicyTwiceMonthly_transform s ob)) = mpm_expect s"
  by (simp add: MprunePolicyTwiceMonthly_transform_def Let_def split: option.splits)

lemma flush_observe:
  assumes "mpm_expect s < length (heap s)" and "root_nonempty (mpm_root s)"
    and "mpm_expect s < length h'" and "h' ! mpm_expect s = heap s ! mpm_expect s"
  shows "observe (MprunePolicyTwiceMonthly_flush (s\<lparr>heap := h'\<rparr>)) =
         observe (MprunePolicyTwiceMonthly_flush s)"
proof -
  let ?t = "s\<lparr>heap := h'\<rparr>"
  have vt: "mpm_expect ?t < length (heap ?t)" and nt: "root_nonempty (mpm_root ?t)"
    using assms by simp_all
  show ?thesis
    unfolding flush_eq[OF assms(1,2)] flush_eq[OF vt nt] using assms(4)
    by (simp add: observe_def split: prod.splits)
qed

lemma run_policy_Cons:
  "run_policy s (ob # obs) =
   (case MprunePolicyTwiceMonthly_transform s ob of
      (s', Some e) \<Rightarrow> Inl e
    | (s', None) \<Rightarrow> run_policy s' obs)"
  by (simp add: run_policy_def split: prod.splits option.splits)

lemma run_events_observe:
  assumes "p \<noteq> mpm_expect s" and "mpm_expect s < length (heap s)"
    and "root_nonempty (mpm_root s)"
    and "mpm_expect s < length h'" and "h' ! mpm_expect s = heap s ! mpm_expect s"
  shows "observe (run_events p (s\<lparr>heap := h'\<rparr>) evs) = observe (run_policy s (writes evs))"
  using assms
proof (induction evs arbitrary: s h')
  case Nil
  then show ?case
    by (simp add: run_policy_def flush_observe)
next
  case (Cons ev evs)
  show ?case
  proof (cases ev)
    case (Mutate xs)
    have "run_events p (s\<lparr>heap := h'\<rparr>) (ev # evs) = run_events p (s\<lparr>heap := h'[p := xs]\<rparr>) evs"
      by (simp add: Mutate caller_mutates_def)
    also have "observe \<dots> = observe (run_policy s (writes evs))"
      using Cons.prems by (intro Cons.IH) simp_all
    finally show ?thesis by (simp add: Mutate)
  next
    case (Write ob)
    obtain s1 r where t: "MprunePolicyTwiceMonthly_transform s ob = (s1, r)"
      by (cases "MprunePolicyTwiceMonthly_transform s ob")
    have t': "MprunePolicyTwiceMonthly_transform (s\<lparr>heap := h'\<rparr>) ob = (s1\<lparr>heap := h'\<rparr>, r)"
      by (simp add: transform_heap t)
    have f: "heap s1 = heap s" "mpm_expect s1 = mpm_expect s"
      using transform_fields[of s ob] t by simp_all
    have n: "root_nonempty (mpm_root s1)"
      using transform_nonempty[OF Cons.prems(3), of ob] t by simp
    show ?thesis
    proof (cases r)
      case (Some e)
      then show ?thesis
        by (simp add: Write run_policy_Cons t t' observe_def)
    next
      case None
      have "observe (run_events p (s1\<lparr>heap := h'\<rparr>) evs) = observe (run_policy s1 (writes evs))"
        using Cons.prems n by (intro Cons.IH) (simp_all add: f)
      then show ?thesis
        by (simp add: Write run_policy_Cons t t' None)
    qed
  qed
qed

section \<open>The examples, run\<close>

lemma ex_engine_valid: "mpm_expect (ex_engine rs) < length (heap (ex_engine rs))"
  by (simp add: ex_engine_def)

lemma ex_flagless:
  "flagless (ex_engine [])" "flagless (ex_engine [a_log])" "flagless (ex_engine [a_log, b_log])"
  by (simp_all add: flagless_def expected_def ex_engine_def a_log_def b_log_def
      regexp_literal_def)

lemma ex_months_wf:
  "wf_days ex_month_both" "wf_days ex_month_late" "wf_days ex_month_daily"
  "wf_days ex_month_two"
  by (simp_all add: wf_days_def ex_month_both_def ex_month_late_def ex_month_daily_def
      ex_month_two_def)

lemma ex_month_both_complete:
  "snd (dayIsComplete (ex_engine [a_log]) ex_month_both 5)"
  "snd (dayIsComplete (ex_engine [a_log]) ex_month_both 20)"
  by code_simp+

lemma ex_month_both_nondegraded:
  "(flagless (ex_engine [a_log]) \<and>
    (\<exists>d\<in>{1..14}. snd (dayIsComplete (ex_engine [a_log]) ex_month_both d)) \<and>
    (\<exists>d\<in>{15..31}. snd (dayIsComplete (ex_engine [a_log]) ex_month_both d))) \<or>
   (snd (scan_days (ex_engine [a_log]) ex_month_both 1 15) \<noteq> 15 \<and>
    snd (scan_days (fst (scan_days (ex_engine [a_log]) ex_month_both 1 15))
           ex_month_both 15 32) \<noteq> 32)"
proof -
  have "\<exists>d\<in>{1..14}. snd (dayIsComplete (ex_engine [a_log]) ex_month_both d)"
    using ex_month_both_complete(1) by (intro bexI[of _ 5]) simp_all
  moreover have "\<exists>d\<in>{15..31}. snd (dayIsComplete (ex_engine [a_log]) ex_month_both d)"
    using ex_month_both_complete(2) by (intro bexI[of _ 20]) simp_all
  ultimately show ?thesis using ex_flagless(2) by blast
qed

lemma ex_month_both_scans:
  "snd (scan_days (ex_engine [a_log]) ex_month_both 1 15) = 5"
  "snd (scan_days (fst (scan_days (ex_engine [a_log]) ex_month_both 1 15))
          ex_month_both 15 32) = 20"
  by code_simp+

lemma ex_month_daily_scans:
  "snd (scan_days (ex_engine [a_log_g]) ex_month_daily 1 15) = 1"
  "snd (scan_days (fst (scan_days (ex_engine [a_log_g]) ex_month_daily 1 15))
          ex_month_daily 15 32) = 16"
  by code_simp+

lemma ex_month_daily_nondegraded:
  "(flagless (ex_engine [a_log_g]) \<and>
    (\<exists>d\<in>{1..14}. snd (dayIsComplete (ex_engine [a_log_g]) ex_month_daily d)) \<and>
    (\<exists>d\<in>{15..31}. snd (dayIsComplete (ex_engine [a_log_g]) ex_month_daily d))) \<or>
   (snd (scan_days (ex_engine [a_log_g]) ex_month_daily 1 15) \<noteq> 15 \<and>
    snd (scan_days (fst (scan_days (ex_engine [a_log_g]) ex_month_daily 1 15))
           ex_month_daily 15 32) \<noteq> 32)"
  unfolding ex_month_daily_scans by simp


lemma ex_month_both_result:
  "observe (processMonth (ex_engine [a_log]) ''2020-06'' ex_month_both) =
   Inr ([\<lparr>dtype = ''skip'', dpath = ''/r/2020/06/05/a.log'',
            reason = Some ''designated for keeping''\<rparr>,
         \<lparr>dtype = ''skip'', dpath = ''/r/2020/06/05/b.log'',
            reason = Some ''designated for keeping''\<rparr>,
         \<lparr>dtype = ''remove'', dpath = ''/r/2020/06/07/a.log'', reason = None\<rparr>,
         \<lparr>dtype = ''skip'', dpath = ''/r/2020/06/20/a.log'',
            reason = Some ''designated for keeping''\<rparr>],
        [\<lparr>werror = VError ''2020-06: missing objects from day 1'', wkind = ''nwarn_noday1''\<rparr>,
         \<lparr>werror = VError ''2020-06: missing objects from day 1'', wkind = ''nwarn_noday2''\<rparr>],
        False)"
  by code_simp


lemma ex_month_daily_result:
  "observe (processMonth (ex_engine [a_log_g]) ''2020-06'' ex_month_daily) =
   Inr ([\<lparr>dtype = ''skip'', dpath = ''/r/2020/06/01/a.log'',
            reason = Some ''designated for keeping''\<rparr>,
         \<lparr>dtype = ''remove'', dpath = ''/r/2020/06/02/a.log'', reason = None\<rparr>,
         \<lparr>dtype = ''remove'', dpath = ''/r/2020/06/15/a.log'', reason = None\<rparr>,
         \<lparr>dtype = ''skip'', dpath = ''/r/2020/06/16/a.log'',
            reason = Some ''designated for keeping''\<rparr>],
        [\<lparr>werror = VError ''2020-06: missing objects from day 1'', wkind = ''nwarn_noday2''\<rparr>],
        False)"
  by code_simp


lemma ex_objects_result:
  "observe (run_policy (MprunePolicyTwiceMonthly_new [[0]] [a_log] 0) ex_objects) =
   Inr ([\<lparr>dtype = ''skip'', dpath = ''/r/2019/12/31/b.log'',
            reason = Some ''could not determine which objects to keep in this month''\<rparr>,
         \<lparr>dtype = ''skip'', dpath = ''/r/2020/06/05/a.log'',
            reason = Some ''designated for keeping''\<rparr>,
         \<lparr>dtype = ''skip'', dpath = ''/r/2020/06/05/b.log'',
            reason = Some ''designated for keeping''\<rparr>,
         \<lparr>dtype = ''skip'', dpath = ''/r/2020/06/20/a.log'',
            reason = Some ''designated for keeping''\<rparr>],
        [\<lparr>werror = VError ''2019-12: no valid objects found in days 1-14'',
           wkind = ''nerr_missing''\<rparr>,
         \<lparr>werror = VError ''2019-12: no valid objects found after day 15'',
           wkind = ''nerr_missing''\<rparr>,
         \<lparr>werror = VError ''2020-06: missing objects from day 1'', wkind = ''nwarn_noday1''\<rparr>,
         \<lparr>werror = VError ''2020-06: missing objects from day 1'', wkind = ''nwarn_noday2''\<rparr>],
        True)"
  by code_simp

lemma ex_daily_global_result:
  "observe (run_policy (MprunePolicyTwiceMonthly_new [[0], [0]] [a_log_g] 1)
      (days_objs ex_month_daily)) =
   Inr ([\<lparr>dtype = ''skip'', dpath = ''/r/2020/06/01/a.log'',
            reason = Some ''designated for keeping''\<rparr>,
         \<lparr>dtype = ''remove'', dpath = ''/r/2020/06/02/a.log'', reason = None\<rparr>,
         \<lparr>dtype = ''remove'', dpath = ''/r/2020/06/15/a.log'', reason = None\<rparr>,
         \<lparr>dtype = ''skip'', dpath = ''/r/2020/06/16/a.log'',
            reason = Some ''designated for keeping''\<rparr>],
        [\<lparr>werror = VError ''2020-06: missing objects from day 1'', wkind = ''nwarn_noday2''\<rparr>],
        True)"
  by code_simp

section \<open>Completeness of a day\<close>

text \<open>
  C7. With an empty expected list, \<open>dayIsComplete\<close> returns true for a day whose bucket
  is present and not empty, and false for a day whose bucket is absent or empty; the
  state is left as it was.
\<close>

theorem C7_empty_expected_shortcut:
  assumes "heap s ! mpm_expect s = []"
  shows "dayIsComplete s tree which =
           (s, case map_of tree (Number which) of
                 None \<Rightarrow> False
               | Some objects \<Rightarrow> objects \<noteq> [])"
  using assms by (simp add: dayIsComplete_def split: option.splits)

theorem C7_empty_expected_shortcut_witness:
  "heap (ex_engine []) ! mpm_expect (ex_engine []) = [] \<and>
   dayIsComplete (ex_engine [])
       [(Number 3, [ex_obj ''/r/2020/06/03'' ''a.log'' 3]), (Number 4, [])] 3 =
     (ex_engine [], True) \<and>
   dayIsComplete (ex_engine [])
       [(Number 3, [ex_obj ''/r/2020/06/03'' ''a.log'' 3]), (Number 4, [])] 4 =
     (ex_engine [], False) \<and>
   dayIsComplete (ex_engine [])
       [(Number 3, [ex_obj ''/r/2020/06/03'' ''a.log'' 3]), (Number 4, [])] 5 =
     (ex_engine [], False)"
proof -
  have h: "heap (ex_engine []) ! mpm_expect (ex_engine []) = []"
    by (simp add: ex_engine_def)
  show ?thesis
    using h C7_empty_expected_shortcut [OF h,
        of "[(Number 3, [ex_obj ''/r/2020/06/03'' ''a.log'' 3]), (Number 4, [])]"]
    by simp
qed

text \<open>
  C1, as the specification states it, fails in both directions. One object with
  basename \<open>a.log\<close> against the expected patterns \<open>[/a\.log/, /a\.log/]\<close> is complete
  for \<open>dayIsComplete\<close>, since the inner loop goes on after a removal and the same
  basename removes the second pattern too; under the one-to-one reading the day is not
  complete. And with the expected pattern \<open>/a\.log/g\<close>, the test of day 1 leaves
  \<open>lastIndex\<close> at 5 on the \<open>RegExp\<close> object, which the working copy of the next call
  holds too: \<open>dayIsComplete\<close> then returns false for day 2, whose one basename
  \<open>a.log\<close> the pattern matches and which is complete under the one-to-one reading.
\<close>

theorem C1_one_to_one_counterexample:
  "snd (dayIsComplete (ex_engine [a_log, a_log])
          [(Number 1, [ex_obj ''/r/2020/06/01'' ''a.log'' 1])] 1) \<and>
   \<not> one_to_one_complete (expected (ex_engine [a_log, a_log]))
        [ex_obj ''/r/2020/06/01'' ''a.log'' 1] \<and>
   snd (dayIsComplete (ex_engine [a_log_g]) ex_month_daily 1) \<and>
   map lastIndex (patterns (fst (dayIsComplete (ex_engine [a_log_g]) ex_month_daily 1))) =
     [5] \<and>
   \<not> snd (dayIsComplete (fst (dayIsComplete (ex_engine [a_log_g]) ex_month_daily 1))
            ex_month_daily 2) \<and>
   map_of ex_month_daily (Number 2) = Some [ex_obj ''/r/2020/06/02'' ''a.log'' 2] \<and>
   one_to_one_complete
     (expected (fst (dayIsComplete (ex_engine [a_log_g]) ex_month_daily 1)))
     [ex_obj ''/r/2020/06/02'' ''a.log'' 2]"
  by code_simp

text \<open>
  C1, amended. For expected patterns that have neither the flag \<open>g\<close> nor the flag \<open>y\<close>:
  each basename removes from the working copy every remaining pattern that it matches,
  and \<open>dayIsComplete\<close> returns true iff the bucket is present and not empty and the
  working copy ends empty; that is, iff every expected pattern matches the basename of
  at least one object of the day. A basename may serve several patterns.
\<close>

theorem C1_every_pattern_matched:
  assumes "mpm_expect s < length (heap s)" and "flagless s"
  shows "snd (dayIsComplete s tree which) =
           (case map_of tree (Number which) of
              None \<Rightarrow> False
            | Some objects \<Rightarrow>
                objects \<noteq> [] \<and>
                fold (\<lambda>ob ps. filter (\<lambda>p. \<not> matches p (basename ob)) ps) objects
                  (expected s) = []) \<and>
         snd (dayIsComplete s tree which) =
           (case map_of tree (Number which) of
              None \<Rightarrow> False
            | Some objects \<Rightarrow>
                objects \<noteq> [] \<and>
                (\<forall>p\<in>set (expected s). \<exists>ob\<in>set objects. matches p (basename ob)))"
proof -
  obtain new where d: "dayIsComplete s tree which =
      (s\<lparr>heap := heap s @ new\<rparr>, day_met (heap s ! mpm_expect s) (patterns s) tree which)"
    using dayIsComplete_flagless [OF assms] by blast
  then have second: "snd (dayIsComplete s tree which) =
           (case map_of tree (Number which) of
              None \<Rightarrow> False
            | Some objects \<Rightarrow>
                objects \<noteq> [] \<and>
                (\<forall>p\<in>set (expected s). \<exists>ob\<in>set objects. matches p (basename ob)))"
    by (simp add: day_met_def expected_def split: option.splits)
  have "fold (\<lambda>ob ps. filter (\<lambda>p. \<not> matches p (basename ob)) ps) objects e =
        filter (\<lambda>p. \<forall>ob\<in>set objects. \<not> matches p (basename ob)) e"
    for objects :: "obj list" and e
  proof (induction objects arbitrary: e)
    case Nil
    show ?case by simp
  next
    case (Cons ob objects)
    have "(\<lambda>p. (\<forall>x\<in>set objects. \<not> matches p (basename x)) \<and> \<not> matches p (basename ob)) =
          (\<lambda>p. \<not> matches p (basename ob) \<and> (\<forall>x\<in>set objects. \<not> matches p (basename x)))"
      by auto
    with Cons show ?case by simp
  qed
  then have first: "snd (dayIsComplete s tree which) =
           (case map_of tree (Number which) of
              None \<Rightarrow> False
            | Some objects \<Rightarrow>
                objects \<noteq> [] \<and>
                fold (\<lambda>ob ps. filter (\<lambda>p. \<not> matches p (basename ob)) ps) objects
                  (expected s) = [])"
    unfolding second by (simp add: filter_empty_conv split: option.splits)
  from first second show ?thesis by blast
qed

theorem C1_every_pattern_matched_witness:
  "mpm_expect (ex_engine [a_log, b_log]) < length (heap (ex_engine [a_log, b_log])) \<and>
   flagless (ex_engine [a_log, b_log]) \<and>
   snd (dayIsComplete (ex_engine [a_log, b_log])
          [(Number 1, [ex_obj ''/r/2020/06/01'' ''a.log'' 1]),
           (Number 2, [ex_obj ''/r/2020/06/02'' ''b.log'' 2,
                       ex_obj ''/r/2020/06/02'' ''a.log'' 2])]
          1) = False \<and>
   snd (dayIsComplete (ex_engine [a_log, b_log])
          [(Number 1, [ex_obj ''/r/2020/06/01'' ''a.log'' 1]),
           (Number 2, [ex_obj ''/r/2020/06/02'' ''b.log'' 2,
                       ex_obj ''/r/2020/06/02'' ''a.log'' 2])]
          2) = True"
proof -
  let ?tree = "[(Number 1, [ex_obj ''/r/2020/06/01'' ''a.log'' 1]),
           (Number 2, [ex_obj ''/r/2020/06/02'' ''b.log'' 2,
                       ex_obj ''/r/2020/06/02'' ''a.log'' 2])]"
  have v: "mpm_expect (ex_engine [a_log, b_log]) < length (heap (ex_engine [a_log, b_log]))"
    by (rule ex_engine_valid)
  have e: "expected (ex_engine [a_log, b_log]) = [a_log, b_log]"
    by (simp add: expected_def ex_engine_def)
  have m: "matches a_log ''a.log''" "\<not> matches b_log ''a.log''" "matches b_log ''b.log''"
    "\<not> matches a_log ''b.log''"
    by code_simp+
  note t1 = C1_every_pattern_matched [OF v ex_flagless(3), of ?tree 1]
  note t2 = C1_every_pattern_matched [OF v ex_flagless(3), of ?tree 2]
  have "snd (dayIsComplete (ex_engine [a_log, b_log]) ?tree 1) = False"
    using t1 m unfolding e by (simp add: ex_obj_def)
  moreover have "snd (dayIsComplete (ex_engine [a_log, b_log]) ?tree 2) = True"
    using t2 m unfolding e by (simp add: ex_obj_def)
  ultimately show ?thesis
    using v ex_flagless(3) by blast
qed

section \<open>The decisions of a month\<close>



text \<open>
  C4. A month with a complete day among days 1 to 14 and one among days 15 to 31 (for
  patterns without the flags \<open>g\<close> and \<open>y\<close>; in general, a month in which each of the two
  scans of \<open>processMonth\<close> gets an answer true before the end of its half): the
  first scan ends on a day from 1 to 14 and the second on a day from 15 to 31, so the
  two differ and \<open>processMonth\<close> does not fail its assertion; the \<open>remove\<close>
  instructions pushed are exactly those for the objects of the buckets of the other
  days.
\<close>

theorem C4_keep_days_disjoint:
  assumes v: "mpm_expect s < length (heap s)" and wf: "wf_days monthtree"
    and nd: "(flagless s \<and> (\<exists>d\<in>{1..14}. snd (dayIsComplete s monthtree d)) \<and>
                (\<exists>d\<in>{15..31}. snd (dayIsComplete s monthtree d))) \<or>
             (snd (scan_days s monthtree 1 15) \<noteq> 15 \<and>
              snd (scan_days (fst (scan_days s monthtree 1 15)) monthtree 15 32) \<noteq> 32)"
  shows "\<exists>s1 first s3 second s' new.
           scan_days s monthtree 1 15 = (s1, first) \<and>
           scan_days s1 monthtree 15 32 = (s3, second) \<and>
           1 \<le> first \<and> first \<le> 14 \<and> 15 \<le> second \<and> second \<le> 31 \<and> first \<noteq> second \<and>
           processMonth s label monthtree = Inr s' \<and>
           pushed s' = pushed s @ new \<and>
           mset (filter (\<lambda>dec. dtype dec = ''remove'') new) =
             mset (map (\<lambda>ob. \<lparr>dtype = ''remove'', dpath = path ob, reason = None\<rparr>)
                    (days_objs (filter (\<lambda>(k, objs). k \<noteq> Number first \<and> k \<noteq> Number second)
                       monthtree)))"
proof -
  obtain s1 first s3 second new rs' where r:
    "scan_days s monthtree 1 15 = (s1, first)"
    "scan_days s1 monthtree 15 32 = (s3, second)"
    "1 \<le> first \<and> first \<le> 14 \<and> 15 \<le> second \<and> second \<le> 31"
    "processMonth s label monthtree =
       Inr (s\<lparr>heap := heap s @ new, patterns := rs',
              warned := warned s @ month_warnings label first second,
              pushed := pushed s @ month_decisions False first second monthtree 0\<rparr>)"
    using nondegraded_month[OF v wf nd, of label] by blast
  have k: "list_all (\<lambda>(k, objs). dayKey k) monthtree"
    using wf by (auto simp: wf_days_def list_all_iff)
  have "mset (filter (\<lambda>dec. dtype dec = ''remove'') (month_decisions False first second monthtree 0)) =
        mset (map (\<lambda>ob. \<lparr>dtype = ''remove'', dpath = path ob, reason = None\<rparr>)
               (days_objs (filter (\<lambda>(k, objs). k \<noteq> Number first \<and> k \<noteq> Number second)
                  monthtree)))"
    unfolding mset_filter mset_month_decisions[OF wf]
    unfolding mset_filter[symmetric] decide_remove_filter[OF k] ..
  with r show ?thesis by auto
qed

theorem C4_keep_days_disjoint_witness:
  "mpm_expect (ex_engine [a_log]) < length (heap (ex_engine [a_log])) \<and>
   wf_days ex_month_both \<and>
   ((flagless (ex_engine [a_log]) \<and>
     (\<exists>d\<in>{1..14}. snd (dayIsComplete (ex_engine [a_log]) ex_month_both d)) \<and>
     (\<exists>d\<in>{15..31}. snd (dayIsComplete (ex_engine [a_log]) ex_month_both d))) \<or>
    (snd (scan_days (ex_engine [a_log]) ex_month_both 1 15) \<noteq> 15 \<and>
     snd (scan_days (fst (scan_days (ex_engine [a_log]) ex_month_both 1 15))
            ex_month_both 15 32) \<noteq> 32)) \<and>
   (\<exists>s1 first s3 second s' new.
           scan_days (ex_engine [a_log]) ex_month_both 1 15 = (s1, first) \<and>
           scan_days s1 ex_month_both 15 32 = (s3, second) \<and>
           1 \<le> first \<and> first \<le> 14 \<and> 15 \<le> second \<and> second \<le> 31 \<and> first \<noteq> second \<and>
           processMonth (ex_engine [a_log]) ''2020-06'' ex_month_both = Inr s' \<and>
           pushed s' = pushed (ex_engine [a_log]) @ new \<and>
           mset (filter (\<lambda>dec. dtype dec = ''remove'') new) =
             mset (map (\<lambda>ob. \<lparr>dtype = ''remove'', dpath = path ob, reason = None\<rparr>)
                    (days_objs (filter (\<lambda>(k, objs). k \<noteq> Number first \<and> k \<noteq> Number second)
                       ex_month_both)))) \<and>
   observe (processMonth (ex_engine [a_log]) ''2020-06'' ex_month_both) =
   Inr ([\<lparr>dtype = ''skip'', dpath = ''/r/2020/06/05/a.log'',
            reason = Some ''designated for keeping''\<rparr>,
         \<lparr>dtype = ''skip'', dpath = ''/r/2020/06/05/b.log'',
            reason = Some ''designated for keeping''\<rparr>,
         \<lparr>dtype = ''remove'', dpath = ''/r/2020/06/07/a.log'', reason = None\<rparr>,
         \<lparr>dtype = ''skip'', dpath = ''/r/2020/06/20/a.log'',
            reason = Some ''designated for keeping''\<rparr>],
        [\<lparr>werror = VError ''2020-06: missing objects from day 1'', wkind = ''nwarn_noday1''\<rparr>,
         \<lparr>werror = VError ''2020-06: missing objects from day 1'', wkind = ''nwarn_noday2''\<rparr>],
        False) \<and>
   mpm_expect (ex_engine [a_log_g]) < length (heap (ex_engine [a_log_g])) \<and>
   wf_days ex_month_daily \<and>
   snd (scan_days (ex_engine [a_log_g]) ex_month_daily 1 15) = 1 \<and>
   snd (scan_days (fst (scan_days (ex_engine [a_log_g]) ex_month_daily 1 15))
          ex_month_daily 15 32) = 16 \<and>
   (\<exists>s1 first s3 second s' new.
           scan_days (ex_engine [a_log_g]) ex_month_daily 1 15 = (s1, first) \<and>
           scan_days s1 ex_month_daily 15 32 = (s3, second) \<and>
           1 \<le> first \<and> first \<le> 14 \<and> 15 \<le> second \<and> second \<le> 31 \<and> first \<noteq> second \<and>
           processMonth (ex_engine [a_log_g]) ''2020-06'' ex_month_daily = Inr s' \<and>
           pushed s' = pushed (ex_engine [a_log_g]) @ new \<and>
           mset (filter (\<lambda>dec. dtype dec = ''remove'') new) =
             mset (map (\<lambda>ob. \<lparr>dtype = ''remove'', dpath = path ob, reason = None\<rparr>)
                    (days_objs (filter (\<lambda>(k, objs). k \<noteq> Number first \<and> k \<noteq> Number second)
                       ex_month_daily)))) \<and>
   observe (processMonth (ex_engine [a_log_g]) ''2020-06'' ex_month_daily) =
   Inr ([\<lparr>dtype = ''skip'', dpath = ''/r/2020/06/01/a.log'',
            reason = Some ''designated for keeping''\<rparr>,
         \<lparr>dtype = ''remove'', dpath = ''/r/2020/06/02/a.log'', reason = None\<rparr>,
         \<lparr>dtype = ''remove'', dpath = ''/r/2020/06/15/a.log'', reason = None\<rparr>,
         \<lparr>dtype = ''skip'', dpath = ''/r/2020/06/16/a.log'',
            reason = Some ''designated for keeping''\<rparr>],
        [\<lparr>werror = VError ''2020-06: missing objects from day 1'', wkind = ''nwarn_noday2''\<rparr>],
        False)"
  using ex_engine_valid[of "[a_log]"] ex_months_wf(1) ex_month_both_nondegraded
    C4_keep_days_disjoint [OF ex_engine_valid ex_months_wf(1) ex_month_both_nondegraded,
      of "''2020-06''"]
    ex_month_both_result
    ex_engine_valid[of "[a_log_g]"] ex_months_wf(3) ex_month_daily_scans
    C4_keep_days_disjoint [OF ex_engine_valid ex_months_wf(3) ex_month_daily_nondegraded,
      of "''2020-06''"]
    ex_month_daily_result
  by blast

section \<open>The warnings of a month\<close>

text \<open>
  C8. A month with a complete day in each half (for patterns without the flags \<open>g\<close> and
  \<open>y\<close>; in general, a month in which each of the two scans gets an answer true before
  the end of its half): among the warnings that \<open>processMonth\<close> emits there is one of
  kind \<open>nwarn_noday1\<close> iff the first scan did not end on day 1, and one of kind
  \<open>nwarn_noday2\<close> iff the second scan did not end on day 15, each condition on its own.
  The instructions pushed are those that the emission loop pushes from any state,
  whatever warnings that state holds.
\<close>

theorem C8_deviation_warnings:
  assumes v: "mpm_expect s < length (heap s)" and wf: "wf_days monthtree"
    and nd: "(flagless s \<and> (\<exists>d\<in>{1..14}. snd (dayIsComplete s monthtree d)) \<and>
                (\<exists>d\<in>{15..31}. snd (dayIsComplete s monthtree d))) \<or>
             (snd (scan_days s monthtree 1 15) \<noteq> 15 \<and>
              snd (scan_days (fst (scan_days s monthtree 1 15)) monthtree 15 32) \<noteq> 32)"
  shows "\<exists>s1 first s3 second s' neww newd.
           scan_days s monthtree 1 15 = (s1, first) \<and>
           scan_days s1 monthtree 15 32 = (s3, second) \<and>
           processMonth s label monthtree = Inr s' \<and>
           warned s' = warned s @ neww \<and> pushed s' = pushed s @ newd \<and>
           length (filter (\<lambda>w. wkind w = ''nwarn_noday1'') neww) = (if first \<noteq> 1 then 1 else 0) \<and>
           length (filter (\<lambda>w. wkind w = ''nwarn_noday2'') neww) = (if second \<noteq> 15 then 1 else 0) \<and>
           (\<forall>t. \<exists>t'. emit_days t False first second monthtree 0 = Inr t' \<and>
                  pushed t' = pushed t @ newd)"
proof -
  obtain s1 first s3 second new rs' where r:
    "scan_days s monthtree 1 15 = (s1, first)"
    "scan_days s1 monthtree 15 32 = (s3, second)"
    "1 \<le> first \<and> first \<le> 14 \<and> 15 \<le> second \<and> second \<le> 31"
    "processMonth s label monthtree =
       Inr (s\<lparr>heap := heap s @ new, patterns := rs',
              warned := warned s @ month_warnings label first second,
              pushed := pushed s @ month_decisions False first second monthtree 0\<rparr>)"
    using nondegraded_month[OF v wf nd, of label] by blast
  have w1: "length (filter (\<lambda>w. wkind w = ''nwarn_noday1'') (month_warnings label first second)) =
            (if first \<noteq> 1 then 1 else 0)"
    using r(3) by (simp add: month_warnings_def)
  have w2: "length (filter (\<lambda>w. wkind w = ''nwarn_noday2'') (month_warnings label first second)) =
            (if second \<noteq> 15 then 1 else 0)"
    using r(3) by (simp add: month_warnings_def)
  have em: "\<forall>t. \<exists>t'. emit_days t False first second monthtree 0 = Inr t' \<and>
                  pushed t' = pushed t @ month_decisions False first second monthtree 0"
    by (simp add: emit_days_eq[OF wf_days_nonempty[OF wf]])
  show ?thesis
    using r(1,2,4) w1 w2 em by auto
qed

theorem C8_deviation_warnings_witness:
  "mpm_expect (ex_engine [a_log]) < length (heap (ex_engine [a_log])) \<and>
   wf_days ex_month_both \<and>
   ((flagless (ex_engine [a_log]) \<and>
     (\<exists>d\<in>{1..14}. snd (dayIsComplete (ex_engine [a_log]) ex_month_both d)) \<and>
     (\<exists>d\<in>{15..31}. snd (dayIsComplete (ex_engine [a_log]) ex_month_both d))) \<or>
    (snd (scan_days (ex_engine [a_log]) ex_month_both 1 15) \<noteq> 15 \<and>
     snd (scan_days (fst (scan_days (ex_engine [a_log]) ex_month_both 1 15))
            ex_month_both 15 32) \<noteq> 32)) \<and>
   (\<exists>s1 first s3 second s' neww newd.
           scan_days (ex_engine [a_log]) ex_month_both 1 15 = (s1, first) \<and>
           scan_days s1 ex_month_both 15 32 = (s3, second) \<and>
           processMonth (ex_engine [a_log]) ''2020-06'' ex_month_both = Inr s' \<and>
           warned s' = warned (ex_engine [a_log]) @ neww \<and>
           pushed s' = pushed (ex_engine [a_log]) @ newd \<and>
           length (filter (\<lambda>w. wkind w = ''nwarn_noday1'') neww) = (if first \<noteq> 1 then 1 else 0) \<and>
           length (filter (\<lambda>w. wkind w = ''nwarn_noday2'') neww) = (if second \<noteq> 15 then 1 else 0) \<and>
           (\<forall>t. \<exists>t'. emit_days t False first second ex_month_both 0 = Inr t' \<and>
                  pushed t' = pushed t @ newd)) \<and>
   observe (processMonth (ex_engine [a_log]) ''2020-06'' ex_month_both) =
   Inr ([\<lparr>dtype = ''skip'', dpath = ''/r/2020/06/05/a.log'',
            reason = Some ''designated for keeping''\<rparr>,
         \<lparr>dtype = ''skip'', dpath = ''/r/2020/06/05/b.log'',
            reason = Some ''designated for keeping''\<rparr>,
         \<lparr>dtype = ''remove'', dpath = ''/r/2020/06/07/a.log'', reason = None\<rparr>,
         \<lparr>dtype = ''skip'', dpath = ''/r/2020/06/20/a.log'',
            reason = Some ''designated for keeping''\<rparr>],
        [\<lparr>werror = VError ''2020-06: missing objects from day 1'', wkind = ''nwarn_noday1''\<rparr>,
         \<lparr>werror = VError ''2020-06: missing objects from day 1'', wkind = ''nwarn_noday2''\<rparr>],
        False) \<and>
   mpm_expect (ex_engine [a_log_g]) < length (heap (ex_engine [a_log_g])) \<and>
   wf_days ex_month_daily \<and>
   snd (scan_days (ex_engine [a_log_g]) ex_month_daily 1 15) = 1 \<and>
   snd (scan_days (fst (scan_days (ex_engine [a_log_g]) ex_month_daily 1 15))
          ex_month_daily 15 32) = 16 \<and>
   (\<exists>s1 first s3 second s' neww newd.
           scan_days (ex_engine [a_log_g]) ex_month_daily 1 15 = (s1, first) \<and>
           scan_days s1 ex_month_daily 15 32 = (s3, second) \<and>
           processMonth (ex_engine [a_log_g]) ''2020-06'' ex_month_daily = Inr s' \<and>
           warned s' = warned (ex_engine [a_log_g]) @ neww \<and>
           pushed s' = pushed (ex_engine [a_log_g]) @ newd \<and>
           length (filter (\<lambda>w. wkind w = ''nwarn_noday1'') neww) = (if first \<noteq> 1 then 1 else 0) \<and>
           length (filter (\<lambda>w. wkind w = ''nwarn_noday2'') neww) = (if second \<noteq> 15 then 1 else 0) \<and>
           (\<forall>t. \<exists>t'. emit_days t False first second ex_month_daily 0 = Inr t' \<and>
                  pushed t' = pushed t @ newd)) \<and>
   observe (processMonth (ex_engine [a_log_g]) ''2020-06'' ex_month_daily) =
   Inr ([\<lparr>dtype = ''skip'', dpath = ''/r/2020/06/01/a.log'',
            reason = Some ''designated for keeping''\<rparr>,
         \<lparr>dtype = ''remove'', dpath = ''/r/2020/06/02/a.log'', reason = None\<rparr>,
         \<lparr>dtype = ''remove'', dpath = ''/r/2020/06/15/a.log'', reason = None\<rparr>,
         \<lparr>dtype = ''skip'', dpath = ''/r/2020/06/16/a.log'',
            reason = Some ''designated for keeping''\<rparr>],
        [\<lparr>werror = VError ''2020-06: missing objects from day 1'', wkind = ''nwarn_noday2''\<rparr>],
        False)"
  using ex_engine_valid[of "[a_log]"] ex_months_wf(1) ex_month_both_nondegraded
    C8_deviation_warnings [OF ex_engine_valid ex_months_wf(1) ex_month_both_nondegraded,
      of "''2020-06''"]
    ex_month_both_result
    ex_engine_valid[of "[a_log_g]"] ex_months_wf(3) ex_month_daily_scans
    C8_deviation_warnings [OF ex_engine_valid ex_months_wf(3) ex_month_daily_nondegraded,
      of "''2020-06''"]
    ex_month_daily_result
  by blast

text \<open>
  C10. A month with a complete day in each half (in general, one in which each of the
  two scans gets an answer true before the end of its half), whose second scan does not
  end on day 15: the one warning of kind \<open>nwarn_noday2\<close> carries the message "<label>:
  missing objects from day 1", the very text of the warning of kind \<open>nwarn_noday1\<close>
  when the first scan did not end on day 1 and that one is emitted too.
\<close>

theorem C10_noday2_message:
  assumes v: "mpm_expect s < length (heap s)" and wf: "wf_days monthtree"
    and nd: "(flagless s \<and> (\<exists>d\<in>{1..14}. snd (dayIsComplete s monthtree d)) \<and>
                (\<exists>d\<in>{15..31}. snd (dayIsComplete s monthtree d))) \<or>
             (snd (scan_days s monthtree 1 15) \<noteq> 15 \<and>
              snd (scan_days (fst (scan_days s monthtree 1 15)) monthtree 15 32) \<noteq> 32)"
    and n15: "snd (scan_days (fst (scan_days s monthtree 1 15)) monthtree 15 32) \<noteq> 15"
  shows "\<exists>s' neww.
           processMonth s label monthtree = Inr s' \<and>
           warned s' = warned s @ neww \<and>
           filter (\<lambda>w. wkind w = ''nwarn_noday2'') neww =
             [\<lparr>werror = VError (label @ '': missing objects from day 1''),
               wkind = ''nwarn_noday2''\<rparr>] \<and>
           (snd (scan_days s monthtree 1 15) \<noteq> 1 \<longrightarrow>
              filter (\<lambda>w. wkind w = ''nwarn_noday1'') neww =
                [\<lparr>werror = VError (label @ '': missing objects from day 1''),
                  wkind = ''nwarn_noday1''\<rparr>])"
proof -
  obtain s1 first s3 second new rs' where r:
    "scan_days s monthtree 1 15 = (s1, first)"
    "scan_days s1 monthtree 15 32 = (s3, second)"
    "1 \<le> first \<and> first \<le> 14 \<and> 15 \<le> second \<and> second \<le> 31"
    "processMonth s label monthtree =
       Inr (s\<lparr>heap := heap s @ new, patterns := rs',
              warned := warned s @ month_warnings label first second,
              pushed := pushed s @ month_decisions False first second monthtree 0\<rparr>)"
    using nondegraded_month[OF v wf nd, of label] by blast
  have s15: "second \<noteq> 15" using n15 r(1,2) by simp
  have w2: "filter (\<lambda>w. wkind w = ''nwarn_noday2'') (month_warnings label first second) =
             [\<lparr>werror = VError (label @ '': missing objects from day 1''),
               wkind = ''nwarn_noday2''\<rparr>]"
    using r(3) s15 by (simp add: month_warnings_def)
  have w1: "first \<noteq> 1 \<longrightarrow>
            filter (\<lambda>w. wkind w = ''nwarn_noday1'') (month_warnings label first second) =
             [\<lparr>werror = VError (label @ '': missing objects from day 1''),
               wkind = ''nwarn_noday1''\<rparr>]"
    using r(3) s15 by (simp add: month_warnings_def)
  show ?thesis
    using r(1,4) w1 w2 by auto
qed

theorem C10_noday2_message_witness:
  "mpm_expect (ex_engine [a_log]) < length (heap (ex_engine [a_log])) \<and>
   wf_days ex_month_both \<and>
   ((flagless (ex_engine [a_log]) \<and>
     (\<exists>d\<in>{1..14}. snd (dayIsComplete (ex_engine [a_log]) ex_month_both d)) \<and>
     (\<exists>d\<in>{15..31}. snd (dayIsComplete (ex_engine [a_log]) ex_month_both d))) \<or>
    (snd (scan_days (ex_engine [a_log]) ex_month_both 1 15) \<noteq> 15 \<and>
     snd (scan_days (fst (scan_days (ex_engine [a_log]) ex_month_both 1 15))
            ex_month_both 15 32) \<noteq> 32)) \<and>
   snd (scan_days (fst (scan_days (ex_engine [a_log]) ex_month_both 1 15))
          ex_month_both 15 32) \<noteq> 15 \<and>
   (\<exists>s' neww.
           processMonth (ex_engine [a_log]) ''2020-06'' ex_month_both = Inr s' \<and>
           warned s' = warned (ex_engine [a_log]) @ neww \<and>
           filter (\<lambda>w. wkind w = ''nwarn_noday2'') neww =
             [\<lparr>werror = VError (''2020-06'' @ '': missing objects from day 1''),
               wkind = ''nwarn_noday2''\<rparr>] \<and>
           (snd (scan_days (ex_engine [a_log]) ex_month_both 1 15) \<noteq> 1 \<longrightarrow>
              filter (\<lambda>w. wkind w = ''nwarn_noday1'') neww =
                [\<lparr>werror = VError (''2020-06'' @ '': missing objects from day 1''),
                  wkind = ''nwarn_noday1''\<rparr>])) \<and>
   observe (processMonth (ex_engine [a_log]) ''2020-06'' ex_month_both) =
   Inr ([\<lparr>dtype = ''skip'', dpath = ''/r/2020/06/05/a.log'',
            reason = Some ''designated for keeping''\<rparr>,
         \<lparr>dtype = ''skip'', dpath = ''/r/2020/06/05/b.log'',
            reason = Some ''designated for keeping''\<rparr>,
         \<lparr>dtype = ''remove'', dpath = ''/r/2020/06/07/a.log'', reason = None\<rparr>,
         \<lparr>dtype = ''skip'', dpath = ''/r/2020/06/20/a.log'',
            reason = Some ''designated for keeping''\<rparr>],
        [\<lparr>werror = VError ''2020-06: missing objects from day 1'', wkind = ''nwarn_noday1''\<rparr>,
         \<lparr>werror = VError ''2020-06: missing objects from day 1'', wkind = ''nwarn_noday2''\<rparr>],
        False) \<and>
   mpm_expect (ex_engine [a_log_g]) < length (heap (ex_engine [a_log_g])) \<and>
   wf_days ex_month_daily \<and>
   snd (scan_days (ex_engine [a_log_g]) ex_month_daily 1 15) = 1 \<and>
   snd (scan_days (fst (scan_days (ex_engine [a_log_g]) ex_month_daily 1 15))
          ex_month_daily 15 32) = 16 \<and>
   (\<exists>s' neww.
           processMonth (ex_engine [a_log_g]) ''2020-06'' ex_month_daily = Inr s' \<and>
           warned s' = warned (ex_engine [a_log_g]) @ neww \<and>
           filter (\<lambda>w. wkind w = ''nwarn_noday2'') neww =
             [\<lparr>werror = VError (''2020-06'' @ '': missing objects from day 1''),
               wkind = ''nwarn_noday2''\<rparr>] \<and>
           (snd (scan_days (ex_engine [a_log_g]) ex_month_daily 1 15) \<noteq> 1 \<longrightarrow>
              filter (\<lambda>w. wkind w = ''nwarn_noday1'') neww =
                [\<lparr>werror = VError (''2020-06'' @ '': missing objects from day 1''),
                  wkind = ''nwarn_noday1''\<rparr>])) \<and>
   observe (processMonth (ex_engine [a_log_g]) ''2020-06'' ex_month_daily) =
   Inr ([\<lparr>dtype = ''skip'', dpath = ''/r/2020/06/01/a.log'',
            reason = Some ''designated for keeping''\<rparr>,
         \<lparr>dtype = ''remove'', dpath = ''/r/2020/06/02/a.log'', reason = None\<rparr>,
         \<lparr>dtype = ''remove'', dpath = ''/r/2020/06/15/a.log'', reason = None\<rparr>,
         \<lparr>dtype = ''skip'', dpath = ''/r/2020/06/16/a.log'',
            reason = Some ''designated for keeping''\<rparr>],
        [\<lparr>werror = VError ''2020-06: missing objects from day 1'', wkind = ''nwarn_noday2''\<rparr>],
        False)"
proof -
  have a: "snd (scan_days (fst (scan_days (ex_engine [a_log]) ex_month_both 1 15))
          ex_month_both 15 32) \<noteq> 15"
    unfolding ex_month_both_scans by simp
  have b: "snd (scan_days (fst (scan_days (ex_engine [a_log_g]) ex_month_daily 1 15))
          ex_month_daily 15 32) \<noteq> 15"
    unfolding ex_month_daily_scans by simp
  show ?thesis
    using ex_engine_valid[of "[a_log]"] ex_months_wf(1) ex_month_both_nondegraded a
      C10_noday2_message [OF ex_engine_valid ex_months_wf(1) ex_month_both_nondegraded a,
        of "''2020-06''"]
      ex_month_both_result
      ex_engine_valid[of "[a_log_g]"] ex_months_wf(3) ex_month_daily_scans
      C10_noday2_message [OF ex_engine_valid ex_months_wf(3) ex_month_daily_nondegraded b,
        of "''2020-06''"]
      ex_month_daily_result
    by blast
qed

section \<open>Objects without a timestamp\<close>

text \<open>
  C5. For an object whose timestamp is null, \<open>_transform\<close> passes to its callback the
  error "found entry not under a particular time bucket: <path>" with the path of that
  object, and leaves the state as it was: the tree does not get the object and nothing is
  pushed. A run in which the objects before it have timestamps ends with that error.
\<close>

theorem C5_null_timestamp_fatal:
  assumes "start ob = None"
  shows "MprunePolicyTwiceMonthly_transform s ob =
           (s, Some (VError (''found entry not under a particular time bucket: '' @ path ob))) \<and>
         (\<forall>before after. (\<forall>x\<in>set before. start x \<noteq> None) \<longrightarrow>
            run_policy s (before @ ob # after) =
              Inl (VError (''found entry not under a particular time bucket: '' @ path ob)))"
proof (intro conjI allI impI)
  show t: "MprunePolicyTwiceMonthly_transform s ob =
           (s, Some (VError (''found entry not under a particular time bucket: '' @ path ob)))"
    for s
    using assms by (simp add: MprunePolicyTwiceMonthly_transform_def)
  fix before after :: "obj list"
  assume "\<forall>x\<in>set before. start x \<noteq> None"
  then obtain root where "write_all s before = Inr (s\<lparr>mpm_root := root\<rparr>)"
    using write_all_nonnull by blast
  then show "run_policy s (before @ ob # after) =
              Inl (VError (''found entry not under a particular time bucket: '' @ path ob))"
    by (simp add: run_policy_def write_all_append t)
qed

theorem C5_null_timestamp_fatal_witness:
  "start ((ex_obj ''/r/misc'' ''notes.txt'' 1)\<lparr>start := None\<rparr>) = None \<and>
   MprunePolicyTwiceMonthly_transform (ex_engine [])
       ((ex_obj ''/r/misc'' ''notes.txt'' 1)\<lparr>start := None\<rparr>) =
     (ex_engine [],
      Some (VError ''found entry not under a particular time bucket: /r/misc/notes.txt'')) \<and>
   start (ex_obj ''/r/2020/06/01'' ''a.log'' 1) \<noteq> None \<and>
   run_policy (ex_engine [])
       ([ex_obj ''/r/2020/06/01'' ''a.log'' 1] @
        (ex_obj ''/r/misc'' ''notes.txt'' 1)\<lparr>start := None\<rparr> #
        [ex_obj ''/r/2020/06/15'' ''a.log'' 15]) =
     Inl (VError ''found entry not under a particular time bucket: /r/misc/notes.txt'')"
proof -
  have a: "start ((ex_obj ''/r/misc'' ''notes.txt'' 1)\<lparr>start := None\<rparr>) = None"
    by simp
  have b: "\<forall>x\<in>set [ex_obj ''/r/2020/06/01'' ''a.log'' 1]. start x \<noteq> None"
    by (simp add: ex_obj_def)
  have p: "path ((ex_obj ''/r/misc'' ''notes.txt'' 1)\<lparr>start := None\<rparr>) = ''/r/misc/notes.txt''"
    by (simp add: ex_obj_def)
  note t = C5_null_timestamp_fatal [OF a, of "ex_engine []"]
  from t b have "run_policy (ex_engine [])
       ([ex_obj ''/r/2020/06/01'' ''a.log'' 1] @
        (ex_obj ''/r/misc'' ''notes.txt'' 1)\<lparr>start := None\<rparr> #
        [ex_obj ''/r/2020/06/15'' ''a.log'' 15]) =
     Inl (VError (''found entry not under a particular time bucket: '' @
            path ((ex_obj ''/r/misc'' ''notes.txt'' 1)\<lparr>start := None\<rparr>)))"
    by blast
  with t a b show ?thesis
    unfolding p by simp
qed

section \<open>Policy lookup\<close>

text \<open>
  C6. For a name whose lower-case form is not a key of \<open>mpPolicies\<close>, \<open>policyForName\<close>
  returns the error "unsupported policy: <name>"; for every case variant of
  \<open>twicemonthly\<close> it returns \<open>MprunePolicyTwiceMonthly\<close>.
\<close>

theorem C6_policy_lookup:
  "(toLowerCase name \<notin> fst ` set mpPolicies \<longrightarrow>
      policyForName name = Inl (VError (''unsupported policy: '' @ name))) \<and>
   (case_variant name ''twicemonthly'' \<longrightarrow> policyForName name = Inr MprunePolicyTwiceMonthly)"
proof (intro conjI impI)
  assume "toLowerCase name \<notin> fst ` set mpPolicies"
  then show "policyForName name = Inl (VError (''unsupported policy: '' @ name))"
    by (simp add: policyForName_def hasOwnProperty_def mpPolicies_def)
next
  assume "case_variant name ''twicemonthly''"
  then have "toLowerCase name = ''twicemonthly''"
    by (rule case_variant_lower) (simp add: lowerChar_def upperChar_def)
  then show "policyForName name = Inr MprunePolicyTwiceMonthly"
    by (simp add: policyForName_def hasOwnProperty_def mpPolicies_def)
qed

theorem C6_policy_lookup_witness:
  "toLowerCase ''TwiceWeekly'' \<notin> fst ` set mpPolicies \<and>
   policyForName ''TwiceWeekly'' = Inl (VError ''unsupported policy: TwiceWeekly'') \<and>
   case_variant ''TwiceMONTHLY'' ''twicemonthly'' \<and>
   policyForName ''TwiceMONTHLY'' = Inr MprunePolicyTwiceMonthly"
proof -
  have a: "toLowerCase ''TwiceWeekly'' \<notin> fst ` set mpPolicies"
    by (simp add: toLowerCase_def lowerChar_def mpPolicies_def)
  have b: "case_variant ''TwiceMONTHLY'' ''twicemonthly''"
    by (simp add: case_variant_def lowerChar_def upperChar_def)
  show ?thesis
    using a b C6_policy_lookup [of "''TwiceWeekly''"] C6_policy_lookup [of "''TwiceMONTHLY''"]
    by simp
qed

section \<open>Accounting\<close>

text \<open>
  C2, as the specification states it, fails. The only test that \<open>_transform\<close> makes of
  a timestamp is \<open>when === null\<close>. An object whose timestamp is not null but is an
  invalid \<open>Date\<close> is put in the bucket of year, month and day \<open>NaN\<close>; the emission loop
  of \<open>processMonth\<close> looks at the days 0 to 31 only. A new policy written this one
  object and flushed ends normally, with two warnings for the month \<open>NaN-NaN\<close> and no
  instruction at all.
\<close>

theorem C2_invalid_date_counterexample:
  "start ex_undated \<noteq> None \<and>
   observe (run_policy (MprunePolicyTwiceMonthly_new [[]] [] 0) [ex_undated]) =
   Inr ([],
        [\<lparr>werror = VError ''NaN-NaN: no valid objects found in days 1-14'',
           wkind = ''nerr_missing''\<rparr>,
         \<lparr>werror = VError ''NaN-NaN: no valid objects found after day 15'',
           wkind = ''nerr_missing''\<rparr>],
        True)"
  by code_simp

text \<open>
  C2, amended. A new policy, written \<open>N\<close> objects whose timestamps are all valid dates
  (not null, and not an invalid \<open>Date\<close>), then flushed: the run ends normally, with the
  end of output pushed, having pushed exactly \<open>N\<close> instructions, whose paths are those
  of the objects written, each as many times as it was written. This holds whatever the
  expected patterns and their flags are.
\<close>

theorem C2_totality:
  assumes e: "e < length h"
    and ts: "\<forall>ob\<in>set obs. \<exists>w. start ob = Some w \<and> validDate w"
  shows "\<exists>s'. run_policy (MprunePolicyTwiceMonthly_new h rs e) obs = Inr s' \<and> ended s' \<and>
           length (pushed s') = length obs \<and>
           mset (map dpath (pushed s')) = mset (map path obs)"
proof -
  let ?s = "MprunePolicyTwiceMonthly_new h rs e"
  have s0: "wf_root (mpm_root ?s)" "mset (root_objs (mpm_root ?s)) = {#}" "pushed ?s = []"
    by (simp_all add: MprunePolicyTwiceMonthly_new_def wf_root_def root_objs_def)
  obtain root where w: "write_all ?s obs = Inr (?s\<lparr>mpm_root := root\<rparr>)" "wf_root root"
    "mset (root_objs root) = mset obs"
    using write_all_wf[OF ts s0(1)] s0(2) by auto
  let ?s1 = "?s\<lparr>mpm_root := root\<rparr>"
  let ?vs = "root_visits root (ownKeys id root)"
  have v: "mpm_expect ?s1 < length (heap ?s1)"
    using e by (simp add: MprunePolicyTwiceMonthly_new_def)
  have ne: "root_nonempty (mpm_root ?s1)"
    using wf_root_nonempty[OF w(2)] by simp
  obtain new rs' ws ds where vp:
    "visits_pure (heap ?s1 ! mpm_expect ?s1) (patterns ?s1) ?vs = (new, rs', ws, ds)"
    by (cases "visits_pure (heap ?s1 ! mpm_expect ?s1) (patterns ?s1) ?vs")
  define s' where "s' = ?s1\<lparr>heap := heap ?s1 @ new, patterns := rs',
                  warned := warned ?s1 @ ws, pushed := pushed ?s1 @ ds, ended := True\<rparr>"
  have f: "MprunePolicyTwiceMonthly_flush ?s1 = Inr s'"
    using flush_eq[OF v ne] vp by (simp add: s'_def)
  have run: "run_policy ?s obs = Inr s'"
    using w(1) f by (simp add: run_policy_def)
  have p: "pushed s' = ds"
    by (simp add: s'_def MprunePolicyTwiceMonthly_new_def)
  have "mset (map dpath ds) = mset (map path (visit_objs ?vs))"
    using visits_paths[OF root_visits_wf[OF w(2)],
        of "heap ?s1 ! mpm_expect ?s1" "patterns ?s1" "ownKeys id root"] vp
    by simp
  also have "\<dots> = image_mset path (mset (visit_objs ?vs))" by simp
  also have "\<dots> = image_mset path (mset obs)"
    unfolding root_visit_objs[OF w(2)] w(3) ..
  finally have m: "mset (map dpath (pushed s')) = mset (map path obs)"
    unfolding p by simp
  have "length (pushed s') = length (map dpath (pushed s'))" by simp
  also have "\<dots> = length (map path obs)"
    using m by (rule mset_eq_length)
  finally have l: "length (pushed s') = length obs" by simp
  have "ended s'" by (simp add: s'_def)
  with run l m show ?thesis by blast
qed

theorem C2_totality_witness:
  "(0::nat) < length [[0::nat]] \<and>
   list_all (\<lambda>ob. \<exists>w. start ob = Some w \<and> validDate w) ex_objects \<and>
   (\<exists>s'. run_policy (MprunePolicyTwiceMonthly_new [[0]] [a_log] 0) ex_objects = Inr s' \<and>
         ended s' \<and> length (pushed s') = length ex_objects \<and>
         mset (map dpath (pushed s')) = mset (map path ex_objects)) \<and>
   observe (run_policy (MprunePolicyTwiceMonthly_new [[0]] [a_log] 0) ex_objects) =
   Inr ([\<lparr>dtype = ''skip'', dpath = ''/r/2019/12/31/b.log'',
            reason = Some ''could not determine which objects to keep in this month''\<rparr>,
         \<lparr>dtype = ''skip'', dpath = ''/r/2020/06/05/a.log'',
            reason = Some ''designated for keeping''\<rparr>,
         \<lparr>dtype = ''skip'', dpath = ''/r/2020/06/05/b.log'',
            reason = Some ''designated for keeping''\<rparr>,
         \<lparr>dtype = ''skip'', dpath = ''/r/2020/06/20/a.log'',
            reason = Some ''designated for keeping''\<rparr>],
        [\<lparr>werror = VError ''2019-12: no valid objects found in days 1-14'',
           wkind = ''nerr_missing''\<rparr>,
         \<lparr>werror = VError ''2019-12: no valid objects found after day 15'',
           wkind = ''nerr_missing''\<rparr>,
         \<lparr>werror = VError ''2020-06: missing objects from day 1'', wkind = ''nwarn_noday1''\<rparr>,
         \<lparr>werror = VError ''2020-06: missing objects from day 1'', wkind = ''nwarn_noday2''\<rparr>],
        True)"
proof -
  have e: "(0::nat) < length [[0::nat]]"
    by simp
  have ts: "\<forall>ob\<in>set ex_objects. \<exists>w. start ob = Some w \<and> validDate w"
    by (simp add: ex_objects_def ex_obj_def)
  show ?thesis
    using e ts C2_totality [OF e ts, of "[a_log]"] ex_objects_result
    by (simp add: list_all_iff)
qed

section \<open>The caller's array\<close>

text \<open>
  C9, as the specification states it, fails. \<open>slice(0)\<close> copies the array, not the
  \<open>RegExp\<close> objects that it holds: the policy's array and the caller's refer to the same
  objects. With the pattern \<open>/a\.log/g\<close>, a caller that sets \<open>lastIndex\<close> of the object
  in its array to 5 after the construction changes the answer of \<open>dayIsComplete\<close> for
  day 1 from true to false, and the instructions of the run: day 2 is kept and day 1
  removed. And \<open>dayIsComplete\<close> itself changes the objects of the stored expected
  list: after the call for day 1 the stored pattern has \<open>lastIndex\<close> 5.
\<close>

theorem C9_shared_regexp_counterexample:
  "MpruneOperation_new [[0]] [a_log_g] 0 MprunePolicyTwiceMonthly =
     Inr (MprunePolicyTwiceMonthly_new [[0], [0]] [a_log_g] 1) \<and>
   snd (dayIsComplete (MprunePolicyTwiceMonthly_new [[0], [0]] [a_log_g] 1)
          ex_month_daily 1) \<and>
   \<not> snd (dayIsComplete
            (caller_sets_lastIndex 0 5 (MprunePolicyTwiceMonthly_new [[0], [0]] [a_log_g] 1))
            ex_month_daily 1) \<and>
   observe (run_policy (MprunePolicyTwiceMonthly_new [[0], [0]] [a_log_g] 1)
      (days_objs ex_month_daily)) =
   Inr ([\<lparr>dtype = ''skip'', dpath = ''/r/2020/06/01/a.log'',
            reason = Some ''designated for keeping''\<rparr>,
         \<lparr>dtype = ''remove'', dpath = ''/r/2020/06/02/a.log'', reason = None\<rparr>,
         \<lparr>dtype = ''remove'', dpath = ''/r/2020/06/15/a.log'', reason = None\<rparr>,
         \<lparr>dtype = ''skip'', dpath = ''/r/2020/06/16/a.log'',
            reason = Some ''designated for keeping''\<rparr>],
        [\<lparr>werror = VError ''2020-06: missing objects from day 1'', wkind = ''nwarn_noday2''\<rparr>],
        True) \<and>
   observe (run_policy
      (caller_sets_lastIndex 0 5 (MprunePolicyTwiceMonthly_new [[0], [0]] [a_log_g] 1))
      (days_objs ex_month_daily)) =
   Inr ([\<lparr>dtype = ''remove'', dpath = ''/r/2020/06/01/a.log'', reason = None\<rparr>,
         \<lparr>dtype = ''skip'', dpath = ''/r/2020/06/02/a.log'',
            reason = Some ''designated for keeping''\<rparr>,
         \<lparr>dtype = ''remove'', dpath = ''/r/2020/06/15/a.log'', reason = None\<rparr>,
         \<lparr>dtype = ''skip'', dpath = ''/r/2020/06/16/a.log'',
            reason = Some ''designated for keeping''\<rparr>],
        [\<lparr>werror = VError ''2020-06: missing objects from day 1'', wkind = ''nwarn_noday1''\<rparr>,
         \<lparr>werror = VError ''2020-06: missing objects from day 1'', wkind = ''nwarn_noday2''\<rparr>],
        True) \<and>
   map lastIndex (expected (MprunePolicyTwiceMonthly_new [[0], [0]] [a_log_g] 1)) = [0] \<and>
   map lastIndex (expected (fst (dayIsComplete
      (MprunePolicyTwiceMonthly_new [[0], [0]] [a_log_g] 1) ex_month_daily 1))) = [5]"
proof -
  have a: "MpruneOperation_new [[0]] [a_log_g] 0 MprunePolicyTwiceMonthly =
     Inr (MprunePolicyTwiceMonthly_new [[0], [0]] [a_log_g] 1)"
    by (simp add: MpruneOperation_new_def slice0_def)
  have b: "snd (dayIsComplete (MprunePolicyTwiceMonthly_new [[0], [0]] [a_log_g] 1)
          ex_month_daily 1)"
    by code_simp
  have c: "\<not> snd (dayIsComplete
            (caller_sets_lastIndex 0 5 (MprunePolicyTwiceMonthly_new [[0], [0]] [a_log_g] 1))
            ex_month_daily 1)"
    by code_simp
  have d: "observe (run_policy
      (caller_sets_lastIndex 0 5 (MprunePolicyTwiceMonthly_new [[0], [0]] [a_log_g] 1))
      (days_objs ex_month_daily)) =
   Inr ([\<lparr>dtype = ''remove'', dpath = ''/r/2020/06/01/a.log'', reason = None\<rparr>,
         \<lparr>dtype = ''skip'', dpath = ''/r/2020/06/02/a.log'',
            reason = Some ''designated for keeping''\<rparr>,
         \<lparr>dtype = ''remove'', dpath = ''/r/2020/06/15/a.log'', reason = None\<rparr>,
         \<lparr>dtype = ''skip'', dpath = ''/r/2020/06/16/a.log'',
            reason = Some ''designated for keeping''\<rparr>],
        [\<lparr>werror = VError ''2020-06: missing objects from day 1'', wkind = ''nwarn_noday1''\<rparr>,
         \<lparr>werror = VError ''2020-06: missing objects from day 1'', wkind = ''nwarn_noday2''\<rparr>],
        True)"
    by code_simp
  have e: "map lastIndex (expected (MprunePolicyTwiceMonthly_new [[0], [0]] [a_log_g] 1)) = [0]"
    by code_simp
  have f: "map lastIndex (expected (fst (dayIsComplete
      (MprunePolicyTwiceMonthly_new [[0], [0]] [a_log_g] 1) ex_month_daily 1))) = [5]"
    by code_simp
  show ?thesis
    using a b c d e f ex_daily_global_result by blast
qed

text \<open>
  C9, amended. The operation is constructed on a shallow copy of the caller's array: a
  new array that holds the references that the caller's held then, to the same \<open>RegExp\<close>
  objects. Whatever the caller stores in its own array later (elements added, removed or
  replaced), \<open>dayIsComplete\<close> answers the same, and a run in which the caller changes
  its array between the writes shows the same instructions, warnings and error as the
  run without these changes; this holds whatever the patterns and their flags are.
  \<open>dayIsComplete\<close> works on a new array and leaves every array that exists when it is
  called holding what it held, so the stored expected list too. The \<open>RegExp\<close> objects
  themselves are shared, not copied.
\<close>

theorem C9_expected_list_noninterference:
  assumes p: "p_expect < length h"
    and new: "MpruneOperation_new h rs p_expect p_policy = Inr s"
  shows "heap s ! mpm_expect s = h ! p_expect \<and> mpm_expect s \<noteq> p_expect \<and>
         patterns s = rs \<and>
         (\<forall>xs tree d. snd (dayIsComplete (caller_mutates p_expect xs s) tree d) =
                       snd (dayIsComplete s tree d)) \<and>
         (\<forall>evs. observe (run_events p_expect s evs) = observe (run_policy s (writes evs))) \<and>
         (\<forall>t tree d a. mpm_expect t < length (heap t) \<and> a < length (heap t) \<longrightarrow>
            heap (fst (dayIsComplete t tree d)) ! a = heap t ! a \<and>
            mpm_expect (fst (dayIsComplete t tree d)) = mpm_expect t)"
proof -
  have s: "s = MprunePolicyTwiceMonthly_new (h @ [h ! p_expect]) rs (length h)"
    using new by (simp add: MpruneOperation_new_def slice0_def split: if_splits)
  have e: "mpm_expect s = length h" and hs: "heap s = h @ [h ! p_expect]"
    and r: "mpm_root s = []" and ps: "patterns s = rs"
    by (simp_all add: s MprunePolicyTwiceMonthly_new_def)
  have v: "mpm_expect s < length (heap s)" and ne: "p_expect \<noteq> mpm_expect s"
    and rn: "root_nonempty (mpm_root s)"
    using p by (simp_all add: e hs r root_nonempty_def)
  have c1: "heap s ! mpm_expect s = h ! p_expect"
    by (simp add: e hs)
  have c2: "snd (dayIsComplete (caller_mutates p_expect xs s) tree d) = snd (dayIsComplete s tree d)"
    for xs tree d
  proof -
    let ?t = "caller_mutates p_expect xs s"
    have vt: "mpm_expect ?t < length (heap ?t)"
      and et: "heap ?t ! mpm_expect ?t = heap s ! mpm_expect s"
      and pt: "patterns ?t = patterns s"
      using v ne by (simp_all add: caller_mutates_def)
    show ?thesis
      unfolding dayIsComplete_pure[OF vt] dayIsComplete_pure[OF v] et pt
      by (simp split: prod.splits)
  qed
  have c3: "observe (run_events p_expect s evs) = observe (run_policy s (writes evs))" for evs
    using run_events_observe[OF ne v rn v refl, of evs] by simp
  have c4: "heap (fst (dayIsComplete t tree d)) ! a = heap t ! a \<and>
            mpm_expect (fst (dayIsComplete t tree d)) = mpm_expect t"
    if va: "mpm_expect t < length (heap t) \<and> a < length (heap t)" for t tree d a
  proof -
    have vt: "mpm_expect t < length (heap t)" using va by simp
    show ?thesis
      unfolding dayIsComplete_pure[OF vt] using va
      by (simp add: nth_append split: prod.splits)
  qed
  show ?thesis
    using c1 c2 c3 c4 ne ps by blast
qed

theorem C9_expected_list_noninterference_witness:
  "(0::nat) < length [[0::nat]] \<and>
   MpruneOperation_new [[0]] [a_log_g] 0 MprunePolicyTwiceMonthly =
     Inr (MprunePolicyTwiceMonthly_new [[0], [0]] [a_log_g] 1) \<and>
   snd (dayIsComplete
          (caller_mutates 0 [] (MprunePolicyTwiceMonthly_new [[0], [0]] [a_log_g] 1))
          ex_month_daily 1) =
   snd (dayIsComplete (MprunePolicyTwiceMonthly_new [[0], [0]] [a_log_g] 1)
          ex_month_daily 1) \<and>
   observe (run_events 0 (MprunePolicyTwiceMonthly_new [[0], [0]] [a_log_g] 1)
      [Write (ex_obj ''/r/2020/06/01'' ''a.log'' 1), Mutate [],
       Write (ex_obj ''/r/2020/06/02'' ''a.log'' 2), Mutate [0, 0],
       Write (ex_obj ''/r/2020/06/15'' ''a.log'' 15),
       Write (ex_obj ''/r/2020/06/16'' ''a.log'' 16)]) =
   Inr ([\<lparr>dtype = ''skip'', dpath = ''/r/2020/06/01/a.log'',
            reason = Some ''designated for keeping''\<rparr>,
         \<lparr>dtype = ''remove'', dpath = ''/r/2020/06/02/a.log'', reason = None\<rparr>,
         \<lparr>dtype = ''remove'', dpath = ''/r/2020/06/15/a.log'', reason = None\<rparr>,
         \<lparr>dtype = ''skip'', dpath = ''/r/2020/06/16/a.log'',
            reason = Some ''designated for keeping''\<rparr>],
        [\<lparr>werror = VError ''2020-06: missing objects from day 1'', wkind = ''nwarn_noday2''\<rparr>],
        True) \<and>
   heap (fst (dayIsComplete (MprunePolicyTwiceMonthly_new [[0], [0]] [a_log_g] 1)
      ex_month_daily 1)) ! 1 =
   heap (MprunePolicyTwiceMonthly_new [[0], [0]] [a_log_g] 1) ! 1"
proof -
  let ?op = "MprunePolicyTwiceMonthly_new [[0], [0]] [a_log_g] 1"
  let ?evs = "[Write (ex_obj ''/r/2020/06/01'' ''a.log'' 1), Mutate [],
       Write (ex_obj ''/r/2020/06/02'' ''a.log'' 2), Mutate [0, 0],
       Write (ex_obj ''/r/2020/06/15'' ''a.log'' 15),
       Write (ex_obj ''/r/2020/06/16'' ''a.log'' 16)]"
  have p: "(0::nat) < length [[0::nat]]"
    by simp
  have new: "MpruneOperation_new [[0]] [a_log_g] 0 MprunePolicyTwiceMonthly = Inr ?op"
    by (simp add: MpruneOperation_new_def slice0_def)
  have w: "writes ?evs = days_objs ex_month_daily"
    by (simp add: days_objs_def ex_month_daily_def)
  note t = C9_expected_list_noninterference [OF p new]
  from t have "observe (run_events 0 ?op ?evs) = observe (run_policy ?op (writes ?evs))"
    by blast
  then have a: "observe (run_events 0 ?op ?evs) =
   Inr ([\<lparr>dtype = ''skip'', dpath = ''/r/2020/06/01/a.log'',
            reason = Some ''designated for keeping''\<rparr>,
         \<lparr>dtype = ''remove'', dpath = ''/r/2020/06/02/a.log'', reason = None\<rparr>,
         \<lparr>dtype = ''remove'', dpath = ''/r/2020/06/15/a.log'', reason = None\<rparr>,
         \<lparr>dtype = ''skip'', dpath = ''/r/2020/06/16/a.log'',
            reason = Some ''designated for keeping''\<rparr>],
        [\<lparr>werror = VError ''2020-06: missing objects from day 1'', wkind = ''nwarn_noday2''\<rparr>],
        True)"
    unfolding w ex_daily_global_result .
  from t have b: "heap (fst (dayIsComplete ?op ex_month_daily 1)) ! 1 = heap ?op ! 1"
    by (simp add: MprunePolicyTwiceMonthly_new_def)
  from t have c: "snd (dayIsComplete (caller_mutates 0 [] ?op) ex_month_daily 1) =
                  snd (dayIsComplete ?op ex_month_daily 1)"
    by blast
  show ?thesis
    using p new a b c by blast
qed

end
